theory Spec2Isabelle
  imports Main "HOL-Library.Product_Lexorder"
begin

section \<open>Values exchanged with the transport and the store\<close>

text \<open>
  Request bodies, payloads and cached bodies are TypeScript \<^verbatim>\<open>any\<close>: JSON values.
  \<open>JNull\<close> stands for both \<^verbatim>\<open>null\<close> and \<^verbatim>\<open>undefined\<close>.
\<close>

datatype json =
    JNull
  | JBool bool
  | JNum int
  | JStr string
  | JArr "json list"
  | JObj "(string \<times> json) list"

text \<open>JavaScript truthiness, as used by \<^verbatim>\<open>x || y\<close> and \<^verbatim>\<open>if (x)\<close>.\<close>

fun truthy :: "json \<Rightarrow> bool" where
  "truthy JNull = False"
| "truthy (JBool b) = b"
| "truthy (JNum n) = (n \<noteq> 0)"
| "truthy (JStr s) = (s \<noteq> [])"
| "truthy (JArr xs) = True"
| "truthy (JObj kvs) = True"

text \<open>Values that are thrown, or that reject a promise or fail an observable.\<close>

datatype js_error =
    Error string
  | DOMException string
  | HttpErrorResponse nat string

fun error_status :: "js_error \<Rightarrow> nat option" where
  "error_status (HttpErrorResponse st msg) = Some st"
| "error_status (Error msg) = None"
| "error_status (DOMException name) = None"

fun error_message :: "js_error \<Rightarrow> string" where
  "error_message (HttpErrorResponse st msg) = msg"
| "error_message (Error msg) = msg"
| "error_message (DOMException name) = name"

subsection \<open>http.utils\<close>

definition HTTP_STATUS_OK :: nat where
  "HTTP_STATUS_OK = 200"

definition HTTP_STATUS_SERVICE_UNAVAILABLE :: nat where
  "HTTP_STATUS_SERVICE_UNAVAILABLE = 503"

definition isMutationMethod :: "string \<Rightarrow> bool" where
  "isMutationMethod m = (m = ''POST'' \<or> m = ''PUT'' \<or> m = ''DELETE'')"

definition isGetMethod :: "string \<Rightarrow> bool" where
  "isGetMethod m = (m = ''GET'')"

definition isClientError :: "nat \<Rightarrow> bool" where
  "isClientError st = (400 \<le> st \<and> st < 500)"

subsection \<open>Records of the four collections\<close>

text \<open>
  \<open>mutation\<close> holds the fields shared by \<^verbatim>\<open>OutboxItem\<close> and \<^verbatim>\<open>SyncConflict\<close>.
  The optional \<^verbatim>\<open>id\<close> of either is an option; an argument of type
  \<^verbatim>\<open>Omit<OutboxItem, 'id'>\<close> is an item whose \<open>item_id\<close> is \<open>None\<close>.
\<close>

record mutation =
  url :: string
  http_method :: string
  payload :: json
  timestamp :: int

record outbox_item = mutation +
  item_id :: "nat option"

record sync_conflict = mutation +
  error :: string
  conflict_id :: "nat option"

record cache_item =
  key :: string
  data :: json
  cached_at :: int

record session_note =
  note_id :: string
  clientName :: string
  note_text :: string
  note_timestamp :: int
  shiftDate :: int

section \<open>IndexedDbService\<close>

text \<open>
  The service field \<^verbatim>\<open>db\<close> (a handle or null) together with the database the handle
  refers to: its version, the names of its object stores, the rows of each store and the
  key generators of the two auto-increment stores. \<open>opened\<close> counts the connections that
  \<^verbatim>\<open>openDB\<close> has handed out and \<open>upgrades\<close> the runs of the upgrade callback.
  The cache store has \<^verbatim>\<open>keyPath: 'key'\<close>: it is a map from keys to rows.
\<close>

record idb_service =
  db :: "nat option"
  version :: nat
  objectStoreNames :: "string list"
  outbox :: "outbox_item list"
  outbox_keygen :: nat
  syncConflicts :: "sync_conflict list"
  syncConflicts_keygen :: nat
  cache :: "string \<rightharpoonup> cache_item"
  sessionNotes :: "session_note list"
  opened :: nat
  upgrades :: nat

definition dbVersion :: nat where
  "dbVersion = 3"

text \<open>A computation on a state that returns a value or throws, keeping its effects.\<close>

type_synonym ('a, 's) io = "'s \<Rightarrow> (js_error + 'a) \<times> 's"

definition bind_io :: "('a, 's) io \<Rightarrow> ('a \<Rightarrow> ('b, 's) io) \<Rightarrow> ('b, 's) io" where
  "bind_io m f s = (case m s of (Inl e, s') \<Rightarrow> (Inl e, s') | (Inr a, s') \<Rightarrow> f a s')"

subsection \<open>Opening and upgrading\<close>

text \<open>
  The upgrade callback creates each of the four stores that is missing; a store that is
  created starts empty, and its key generator starts at zero.
\<close>

definition upgrade :: "idb_service \<Rightarrow> idb_service" where
  "upgrade s =
    (let s1 = (if ''outbox'' \<in> set (objectStoreNames s) then s
               else s\<lparr>objectStoreNames := objectStoreNames s @ [''outbox''],
                      outbox := [], outbox_keygen := 0\<rparr>);
         s2 = (if ''syncConflicts'' \<in> set (objectStoreNames s1) then s1
               else s1\<lparr>objectStoreNames := objectStoreNames s1 @ [''syncConflicts''],
                        syncConflicts := [], syncConflicts_keygen := 0\<rparr>);
         s3 = (if ''cache'' \<in> set (objectStoreNames s2) then s2
               else s2\<lparr>objectStoreNames := objectStoreNames s2 @ [''cache''],
                        cache := Map.empty\<rparr>);
         s4 = (if ''sessionNotes'' \<in> set (objectStoreNames s3) then s3
               else s3\<lparr>objectStoreNames := objectStoreNames s3 @ [''sessionNotes''],
                        sessionNotes := []\<rparr>)
     in s4)"

text \<open>
  \<^verbatim>\<open>openDB(name, version, {upgrade})\<close>: a request for a version below the stored one is
  rejected; the upgrade callback runs when the stored version is below the requested
  one, and the stored version becomes the requested one; a new connection is returned.
\<close>

definition openDB :: "(nat, idb_service) io" where
  "openDB s =
    (if dbVersion < version s then (Inl (DOMException ''VersionError''), s)
     else
       let s1 = (if version s < dbVersion
                 then (upgrade s)\<lparr>version := dbVersion, upgrades := upgrades s + 1\<rparr>
                 else s);
           h = opened s1 + 1
       in (Inr h, s1\<lparr>opened := h\<rparr>))"

subsection \<open>Seeding\<close>

definition sampleNotes :: "int \<Rightarrow> session_note list" where
  "sampleNotes now =
    [\<lparr>note_id = ''1'', clientName = ''John Doe'',
      note_text = ''Completed daily activities. Client was responsive and engaged.'',
      note_timestamp = now - 86400000,
      shiftDate = (now - 86400000) div 86400000\<rparr>,
     \<lparr>note_id = ''2'', clientName = ''Jane Smith'',
      note_text = ''Assisted with meal preparation and medication administration.'',
      note_timestamp = now - 172800000,
      shiftDate = (now - 172800000) div 86400000\<rparr>]"

text \<open>\<^verbatim>\<open>db.count('sessionNotes')\<close> and \<^verbatim>\<open>db.add('sessionNotes', note)\<close>.\<close>

definition count_sessionNotes :: "(nat, idb_service) io" where
  "count_sessionNotes s =
    (if ''sessionNotes'' \<in> set (objectStoreNames s) then (Inr (length (sessionNotes s)), s)
     else (Inl (DOMException ''NotFoundError''), s))"

definition add_sessionNote :: "session_note \<Rightarrow> (string, idb_service) io" where
  "add_sessionNote n s =
    (if ''sessionNotes'' \<notin> set (objectStoreNames s) then (Inl (DOMException ''NotFoundError''), s)
     else if note_id n \<in> set (map note_id (sessionNotes s))
     then (Inl (DOMException ''ConstraintError''), s)
     else (Inr (note_id n), s\<lparr>sessionNotes := sessionNotes s @ [n]\<rparr>))"

text \<open>The loop over the sample notes: an exception leaves it.\<close>

fun add_sampleNotes :: "session_note list \<Rightarrow> (unit, idb_service) io" where
  "add_sampleNotes [] s = (Inr (), s)"
| "add_sampleNotes (n # ns) s =
    (case add_sessionNote n s of
       (Inl e, s') \<Rightarrow> (Inl e, s')
     | (Inr _, s') \<Rightarrow> add_sampleNotes ns s')"

text \<open>The \<^verbatim>\<open>try\<close>/\<^verbatim>\<open>catch\<close> logs the exception: the call itself never throws.\<close>

definition initializeSampleData :: "int \<Rightarrow> idb_service \<Rightarrow> idb_service" where
  "initializeSampleData now s =
    (if db s = None then s
     else
       (case count_sessionNotes s of
          (Inl e, s') \<Rightarrow> s'
        | (Inr c, s') \<Rightarrow>
            if c = 0 then snd (add_sampleNotes (sampleNotes now) s') else s'))"

definition init :: "int \<Rightarrow> (unit, idb_service) io" where
  "init now s =
    (if db s \<noteq> None then (Inr (), s)
     else
       (case openDB s of
          (Inl e, s1) \<Rightarrow> (Inl e, s1)
        | (Inr h, s1) \<Rightarrow>
            let s2 = s1\<lparr>db := Some h\<rparr>
            in if ''sessionNotes'' \<notin> set (objectStoreNames s2)
               then (Inl (Error ''sessionNotes store not found - please delete the database and refresh''), s2)
               else (Inr (), initializeSampleData now s2)))"

definition ensureDatabaseInitialized :: "(unit, idb_service) io" where
  "ensureDatabaseInitialized s =
    (if db s = None then (Inl (Error ''Database not initialized''), s) else (Inr (), s))"

subsection \<open>Outbox, conflicts and cache\<close>

text \<open>
  \<^verbatim>\<open>db.add\<close> on an auto-increment store: the key generator is advanced and its new
  value becomes the row's \<^verbatim>\<open>id\<close>.
\<close>

definition add_outbox :: "outbox_item \<Rightarrow> (nat, idb_service) io" where
  "add_outbox item s =
    (if ''outbox'' \<notin> set (objectStoreNames s) then (Inl (DOMException ''NotFoundError''), s)
     else
       let k = outbox_keygen s + 1
       in (Inr k, s\<lparr>outbox := outbox s @ [item\<lparr>item_id := Some k\<rparr>], outbox_keygen := k\<rparr>))"

definition add_syncConflicts :: "sync_conflict \<Rightarrow> (nat, idb_service) io" where
  "add_syncConflicts c s =
    (if ''syncConflicts'' \<notin> set (objectStoreNames s)
     then (Inl (DOMException ''NotFoundError''), s)
     else
       let k = syncConflicts_keygen s + 1
       in (Inr k, s\<lparr>syncConflicts := syncConflicts s @ [c\<lparr>conflict_id := Some k\<rparr>],
                    syncConflicts_keygen := k\<rparr>))"

definition addToOutbox :: "outbox_item \<Rightarrow> int \<Rightarrow> (nat, idb_service) io" where
  "addToOutbox item now =
    bind_io (init now) (\<lambda>_.
    bind_io ensureDatabaseInitialized (\<lambda>_.
    add_outbox (item\<lparr>timestamp := (if timestamp item \<noteq> 0 then timestamp item else now)\<rparr>)))"

text \<open>
  \<^verbatim>\<open>index('by-timestamp').getAll()\<close>: the rows in ascending order of the index key, rows
  with equal index keys in ascending order of their primary key.
\<close>

definition key_of :: "outbox_item \<Rightarrow> nat" where
  "key_of item = (case item_id item of Some k \<Rightarrow> k | None \<Rightarrow> 0)"

definition by_timestamp :: "outbox_item list \<Rightarrow> outbox_item list" where
  "by_timestamp rows = sort_key (\<lambda>r. (timestamp r, key_of r)) rows"

definition getOutbox :: "int \<Rightarrow> (outbox_item list, idb_service) io" where
  "getOutbox now =
    bind_io (init now) (\<lambda>_.
    bind_io ensureDatabaseInitialized (\<lambda>_. (\<lambda>s.
      if ''outbox'' \<notin> set (objectStoreNames s) then (Inl (DOMException ''NotFoundError''), s)
      else (Inr (by_timestamp (outbox s)), s))))"

definition removeFromOutbox :: "nat \<Rightarrow> int \<Rightarrow> (unit, idb_service) io" where
  "removeFromOutbox k now =
    bind_io (init now) (\<lambda>_.
    bind_io ensureDatabaseInitialized (\<lambda>_. (\<lambda>s.
      if ''outbox'' \<notin> set (objectStoreNames s) then (Inl (DOMException ''NotFoundError''), s)
      else (Inr (), s\<lparr>outbox := filter (\<lambda>r. item_id r \<noteq> Some k) (outbox s)\<rparr>))))"

definition addToSyncConflicts :: "sync_conflict \<Rightarrow> int \<Rightarrow> (nat, idb_service) io" where
  "addToSyncConflicts c now =
    bind_io (init now) (\<lambda>_.
    bind_io ensureDatabaseInitialized (\<lambda>_.
    add_syncConflicts (c\<lparr>timestamp := (if timestamp c \<noteq> 0 then timestamp c else now)\<rparr>)))"

definition cacheGet :: "string \<Rightarrow> json \<Rightarrow> int \<Rightarrow> (unit, idb_service) io" where
  "cacheGet k d now =
    bind_io (init now) (\<lambda>_.
    bind_io ensureDatabaseInitialized (\<lambda>_. (\<lambda>s.
      if ''cache'' \<notin> set (objectStoreNames s) then (Inl (DOMException ''NotFoundError''), s)
      else (Inr (), s\<lparr>cache := (cache s)(k \<mapsto> \<lparr>key = k, data = d, cached_at = now\<rparr>)\<rparr>))))"

text \<open>\<^verbatim>\<open>item ? item.data : null\<close>: a row object is always truthy.\<close>

definition getCached :: "string \<Rightarrow> int \<Rightarrow> (json, idb_service) io" where
  "getCached k now =
    bind_io (init now) (\<lambda>_.
    bind_io ensureDatabaseInitialized (\<lambda>_. (\<lambda>s.
      if ''cache'' \<notin> set (objectStoreNames s) then (Inl (DOMException ''NotFoundError''), s)
      else (Inr (case cache s k of Some item \<Rightarrow> data item | None \<Rightarrow> JNull), s))))"

section \<open>The application state\<close>

record http_request =
  req_method :: string
  req_url :: string
  req_body :: json

record http_response =
  status :: nat
  statusText :: string
  body :: json

text \<open>An \<^verbatim>\<open>HttpEvent\<close> is a response or one of the events that carry no status and body.\<close>

datatype http_event =
    HttpResponse http_response
  | HttpOtherEvent nat

text \<open>What an observable delivers: the values of its success channel and how it ends.\<close>

datatype ending = Complete | Failed js_error

type_synonym 'a observed = "'a list \<times> ending"

record sync_status =
  isSyncing :: bool
  totalItems :: nat
  completedItems :: nat
  failedItems :: nat

text \<open>
  The places at which the sync service is suspended, each with the values its
  continuation has captured:
  \<^item> \<open>SyncAwaitOutbox\<close>: \<^verbatim>\<open>sync\<close> at \<^verbatim>\<open>await this.indexedDb.getOutbox()\<close>;
  \<^item> \<open>InFlight item rest\<close>: the \<^verbatim>\<open>concatMap\<close> of \<^verbatim>\<open>processOutboxItems\<close> is subscribed
    to the request of \<open>item\<close> and buffers \<open>rest\<close>;
  \<^item> \<open>RemoveOnSuccess item\<close>: \<^verbatim>\<open>handleSuccessfulRequest\<close> at
    \<^verbatim>\<open>await this.indexedDb.removeFromOutbox(item.id)\<close>;
  \<^item> \<open>ConflictAdd e item rest\<close>: \<^verbatim>\<open>handleClientError\<close> at
    \<^verbatim>\<open>await this.indexedDb.addToSyncConflicts(...)\<close>;
  \<^item> \<open>ConflictRemove e item rest\<close>: \<^verbatim>\<open>handleClientError\<close> at
    \<^verbatim>\<open>await this.indexedDb.removeFromOutbox(item.id)\<close>;
  \<^item> \<open>CompleteAwaitOutbox\<close>: \<^verbatim>\<open>handleSyncComplete\<close> at
    \<^verbatim>\<open>await this.indexedDb.getOutbox()\<close>.
\<close>

datatype task =
    SyncAwaitOutbox
  | InFlight outbox_item "outbox_item list"
  | RemoveOnSuccess outbox_item
  | ConflictAdd js_error outbox_item "outbox_item list"
  | ConflictRemove js_error outbox_item "outbox_item list"
  | CompleteAwaitOutbox

text \<open>
  \<open>indexedDb\<close> is the store service, \<open>onLine\<close> is \<^verbatim>\<open>navigator.onLine\<close> (read by
  \<^verbatim>\<open>OfflineDetectionService.isOnline\<close>), \<open>currentStatus\<close> is the field of the sync
  service, \<open>published\<close> lists the values passed to \<^verbatim>\<open>statusSubject.next\<close>,
  \<open>requests\<close> lists the requests handed to the transport, in the order of the calls, and
  \<open>suspended\<close> holds the suspended continuations of the sync service.
\<close>

record app =
  indexedDb :: idb_service
  onLine :: bool
  currentStatus :: sync_status
  published :: "sync_status list"
  requests :: "http_request list"
  suspended :: "task list"

text \<open>\<^verbatim>\<open>from(promise)\<close>: one value and completion, or the rejection as the error.\<close>

definition from_promise :: "js_error + 'a \<Rightarrow> 'a observed" where
  "from_promise p = (case p of Inl e \<Rightarrow> ([], Failed e) | Inr v \<Rightarrow> ([v], Complete))"

section \<open>OfflineInterceptor\<close>

definition createOfflineMutationResponse :: "string \<Rightarrow> json \<Rightarrow> json" where
  "createOfflineMutationResponse m b =
    (if m = ''POST'' then
       JObj [(''success'', JBool True),
             (''message'', JStr ''Saved offline, will sync when online''),
             (''data'', b)]
     else if m = ''PUT'' then
       JObj [(''success'', JBool True),
             (''message'', JStr ''Updated offline, will sync when online''),
             (''data'', b)]
     else if m = ''DELETE'' then
       JObj [(''success'', JBool True),
             (''message'', JStr ''Delete queued offline, will sync when online'')]
     else
       JObj [(''success'', JBool True),
             (''message'', JStr ''Saved offline, will sync when online'')])"

definition handleOfflineMutation :: "http_request \<Rightarrow> int \<Rightarrow> app \<Rightarrow> (js_error + http_event) \<times> app" where
  "handleOfflineMutation req now a =
    (let outboxItem = \<lparr>url = req_url req, http_method = req_method req,
                        payload = (if truthy (req_body req) then req_body req else JObj []),
                        timestamp = now, item_id = None\<rparr>
     in case addToOutbox outboxItem now (indexedDb a) of
          (Inl e, s') \<Rightarrow> (Inl e, a\<lparr>indexedDb := s'\<rparr>)
        | (Inr outboxId, s') \<Rightarrow>
            (Inr (HttpResponse \<lparr>status = HTTP_STATUS_OK, statusText = ''OK'',
                   body = createOfflineMutationResponse (req_method req) (req_body req)\<rparr>),
             a\<lparr>indexedDb := s'\<rparr>))"

definition createCachedResponse :: "json \<Rightarrow> http_event" where
  "createCachedResponse d =
    HttpResponse \<lparr>status = HTTP_STATUS_OK, statusText = ''OK (Cached)'', body = d\<rparr>"

definition createServiceUnavailableResponse :: http_event where
  "createServiceUnavailableResponse =
    HttpResponse \<lparr>status = HTTP_STATUS_SERVICE_UNAVAILABLE, statusText = ''Service Unavailable'',
      body = JObj [(''error'', JStr ''No cached data available and device is offline'')]\<rparr>"

definition handleOfflineGet :: "http_request \<Rightarrow> int \<Rightarrow> app \<Rightarrow> (js_error + http_event) \<times> app" where
  "handleOfflineGet req now a =
    (case getCached (req_url req) now (indexedDb a) of
       (Inl e, s') \<Rightarrow> (Inl e, a\<lparr>indexedDb := s'\<rparr>)
     | (Inr cachedData, s') \<Rightarrow>
         (Inr (if truthy cachedData then createCachedResponse cachedData
               else createServiceUnavailableResponse),
          a\<lparr>indexedDb := s'\<rparr>))"

text \<open>
  The callback of \<^verbatim>\<open>handleOnlineGet\<close> for one event of the transport. The call of
  \<^verbatim>\<open>cacheGet\<close> is not awaited and its rejection is only logged: what remains of it is
  its effect on the store.
\<close>

definition cache_event :: "string \<Rightarrow> int \<Rightarrow> http_event \<Rightarrow> app \<Rightarrow> app" where
  "cache_event u now ev a =
    (case ev of
       HttpResponse r \<Rightarrow>
         if status r = HTTP_STATUS_OK
         then a\<lparr>indexedDb := snd (cacheGet u (body r) now (indexedDb a))\<rparr>
         else a
     | HttpOtherEvent t \<Rightarrow> a)"

text \<open>
  \<open>next\<close> is the rest of the handler chain: what \<^verbatim>\<open>next.handle(req)\<close> delivers. Every
  call of it is recorded in \<open>requests\<close>.
\<close>

definition handle :: "(http_request \<Rightarrow> http_event observed) \<Rightarrow> http_request \<Rightarrow> app \<Rightarrow>
    http_event observed \<times> app" where
  "handle next req a = (next req, a\<lparr>requests := requests a @ [req]\<rparr>)"

definition handleOnlineGet :: "http_request \<Rightarrow> (http_request \<Rightarrow> http_event observed) \<Rightarrow> int \<Rightarrow>
    app \<Rightarrow> http_event observed \<times> app" where
  "handleOnlineGet req next now a =
    (case handle next req a of
       ((events, e), a1) \<Rightarrow> ((events, e), fold (cache_event (req_url req) now) events a1))"

definition intercept :: "http_request \<Rightarrow> (http_request \<Rightarrow> http_event observed) \<Rightarrow> int \<Rightarrow>
    app \<Rightarrow> http_event observed \<times> app" where
  "intercept req next now a =
    (let isOnline = onLine a;
         isMutation = isMutationMethod (req_method req);
         isGet = isGetMethod (req_method req)
     in if \<not> isOnline \<and> isMutation then
          (case handleOfflineMutation req now a of (p, a') \<Rightarrow> (from_promise p, a'))
        else if \<not> isOnline \<and> isGet then
          (case handleOfflineGet req now a of (p, a') \<Rightarrow> (from_promise p, a'))
        else if isOnline \<and> isGet then handleOnlineGet req next now a
        else handle next req a)"

section \<open>SyncService\<close>

definition spawn :: "task \<Rightarrow> app \<Rightarrow> app" where
  "spawn t a = a\<lparr>suspended := suspended a @ [t]\<rparr>"

definition updateStatus :: "sync_status \<Rightarrow> app \<Rightarrow> app" where
  "updateStatus st a = a\<lparr>currentStatus := st, published := published a @ [st]\<rparr>"

definition shouldSkipSync :: "app \<Rightarrow> bool" where
  "shouldSkipSync a = (isSyncing (currentStatus a) \<or> \<not> onLine a)"

definition startSync :: "nat \<Rightarrow> app \<Rightarrow> app" where
  "startSync n a =
    updateStatus \<lparr>isSyncing = True, totalItems = n, completedItems = 0, failedItems = 0\<rparr> a"

definition incrementCompletedItems :: "app \<Rightarrow> app" where
  "incrementCompletedItems a =
    updateStatus ((currentStatus a)\<lparr>completedItems := completedItems (currentStatus a) + 1\<rparr>) a"

definition handleServerError :: "app \<Rightarrow> app" where
  "handleServerError a =
    updateStatus \<lparr>isSyncing = False, totalItems = totalItems (currentStatus a),
      completedItems = completedItems (currentStatus a),
      failedItems = failedItems (currentStatus a)\<rparr> a"

text \<open>\<^verbatim>\<open>!!item.id\<close>, which is also the test \<^verbatim>\<open>if (item.id)\<close>.\<close>

definition hasValidItemId :: "outbox_item \<Rightarrow> bool" where
  "hasValidItemId item = (case item_id item of Some k \<Rightarrow> k \<noteq> 0 | None \<Rightarrow> False)"

definition createHttpRequest :: "outbox_item \<Rightarrow> js_error + http_request" where
  "createHttpRequest item =
    (if http_method item = ''POST'' then
       Inr \<lparr>req_method = ''POST'', req_url = url item, req_body = payload item\<rparr>
     else if http_method item = ''PUT'' then
       Inr \<lparr>req_method = ''PUT'', req_url = url item, req_body = payload item\<rparr>
     else if http_method item = ''DELETE'' then
       Inr \<lparr>req_method = ''DELETE'', req_url = url item, req_body = JNull\<rparr>
     else Inl (Error (''Unsupported method: '' @ http_method item)))"

text \<open>
  \<open>processItem\<close> builds the request of an item or throws; the request is sent when the
  \<^verbatim>\<open>concatMap\<close> subscribes to what \<open>processItem\<close> returns, which it does at once.
\<close>

definition processItem :: "outbox_item \<Rightarrow> js_error + http_request" where
  "processItem item =
    (if \<not> hasValidItemId item then Inl (Error ''Item missing ID'') else createHttpRequest item)"

definition handleSyncComplete :: "app \<Rightarrow> app" where
  "handleSyncComplete a = spawn CompleteAwaitOutbox a"

definition handleSyncComplete_resumed :: "int \<Rightarrow> app \<Rightarrow> app" where
  "handleSyncComplete_resumed now a =
    (case getOutbox now (indexedDb a) of
       (Inl e, s') \<Rightarrow> a\<lparr>indexedDb := s'\<rparr>
     | (Inr remainingOutbox, s') \<Rightarrow>
         updateStatus \<lparr>isSyncing = False, totalItems = 0, completedItems = 0, failedItems = 0\<rparr>
           (a\<lparr>indexedDb := s'\<rparr>))"

text \<open>
  The \<^verbatim>\<open>concatMap\<close> turns to the items it still buffers: with none left the stream
  completes and \<open>handleSyncComplete\<close> is called; otherwise the first is projected and its
  request is sent. An exception of \<open>processItem\<close> fails the stream, whose error callback
  only logs.
\<close>

fun subscribe_next :: "outbox_item list \<Rightarrow> app \<Rightarrow> app" where
  "subscribe_next [] a = handleSyncComplete a"
| "subscribe_next (item # rest) a =
    (case processItem item of
       Inl e \<Rightarrow> a
     | Inr req \<Rightarrow> spawn (InFlight item rest) (a\<lparr>requests := requests a @ [req]\<rparr>))"

definition processOutboxItems :: "outbox_item list \<Rightarrow> app \<Rightarrow> app" where
  "processOutboxItems outboxItems a = subscribe_next outboxItems a"

definition sync :: "app \<Rightarrow> app" where
  "sync a = (if shouldSkipSync a then a else spawn SyncAwaitOutbox a)"

definition sync_resumed :: "int \<Rightarrow> app \<Rightarrow> app" where
  "sync_resumed now a =
    (case getOutbox now (indexedDb a) of
       (Inl e, s') \<Rightarrow> a\<lparr>indexedDb := s'\<rparr>
     | (Inr outboxItems, s') \<Rightarrow>
         if length outboxItems = 0 then a\<lparr>indexedDb := s'\<rparr>
         else processOutboxItems outboxItems
                (startSync (length outboxItems) (a\<lparr>indexedDb := s'\<rparr>)))"

definition triggerSync :: "app \<Rightarrow> app" where
  "triggerSync a = sync a"

text \<open>
  \<open>handleSuccessfulRequest\<close> runs to its first \<^verbatim>\<open>await\<close>; nobody awaits its promise.
  Its first statement reads \<^verbatim>\<open>response.status\<close>, which throws when the response is
  \<^verbatim>\<open>null\<close>: the promise is then rejected at once and no removal is started. Once
  resumed it removes the row and then reads the outbox for a log line.
\<close>

definition handleSuccessfulRequest :: "outbox_item \<Rightarrow> json \<Rightarrow> app \<Rightarrow> app" where
  "handleSuccessfulRequest item response a =
    (if response = JNull then a
     else if hasValidItemId item then spawn (RemoveOnSuccess item) a
     else a)"

definition handleSuccessfulRequest_resumed :: "int \<Rightarrow> outbox_item \<Rightarrow> app \<Rightarrow> app" where
  "handleSuccessfulRequest_resumed now item a =
    (case removeFromOutbox (key_of item) now (indexedDb a) of
       (Inl e, s') \<Rightarrow> a\<lparr>indexedDb := s'\<rparr>
     | (Inr u, s') \<Rightarrow> a\<lparr>indexedDb := snd (getOutbox now s')\<rparr>)"

text \<open>
  The value of a request: the two \<^verbatim>\<open>tap\<close> callbacks run, the inner observable
  completes, and the \<^verbatim>\<open>concatMap\<close> turns to the next item.
\<close>

definition item_succeeded :: "outbox_item \<Rightarrow> outbox_item list \<Rightarrow> json \<Rightarrow> app \<Rightarrow> app" where
  "item_succeeded item rest response a =
    subscribe_next rest (incrementCompletedItems (handleSuccessfulRequest item response a))"

text \<open>Decimal digits of a status, for the template \<^verbatim>\<open>`HTTP ${error.status}`\<close>.\<close>

fun show_nat :: "nat \<Rightarrow> string" where
  "show_nat n =
    (if n < 10 then [''0123456789'' ! n] else show_nat (n div 10) @ [''0123456789'' ! (n mod 10)])"

definition conflict_of :: "js_error \<Rightarrow> outbox_item \<Rightarrow> sync_conflict" where
  "conflict_of e item =
    \<lparr>url = url item, http_method = http_method item, payload = payload item,
     timestamp = timestamp item,
     error = (if error_message e \<noteq> [] then error_message e
              else ''HTTP '' @ (case error_status e of Some st \<Rightarrow> show_nat st
                                 | None \<Rightarrow> ''undefined'')),
     conflict_id = None\<rparr>"

text \<open>
  \<open>handleClientError\<close> in its three stretches. After the last one \<open>handleSyncError\<close>
  returns \<^verbatim>\<open>EMPTY\<close>, the observable that replaces the failed request completes, and
  the \<^verbatim>\<open>concatMap\<close> turns to the next item. A rejection of either store call fails the
  stream instead.
\<close>

definition handleClientError :: "js_error \<Rightarrow> outbox_item \<Rightarrow> outbox_item list \<Rightarrow> app \<Rightarrow> app" where
  "handleClientError e item rest a = spawn (ConflictAdd e item rest) a"

definition handleClientError_finish :: "outbox_item list \<Rightarrow> app \<Rightarrow> app" where
  "handleClientError_finish rest a =
    subscribe_next rest
      (updateStatus ((currentStatus a)\<lparr>completedItems := completedItems (currentStatus a) + 1,
          failedItems := failedItems (currentStatus a) + 1\<rparr>) a)"

definition handleClientError_added :: "int \<Rightarrow> js_error \<Rightarrow> outbox_item \<Rightarrow> outbox_item list \<Rightarrow>
    app \<Rightarrow> app" where
  "handleClientError_added now e item rest a =
    (case addToSyncConflicts (conflict_of e item) now (indexedDb a) of
       (Inl err, s') \<Rightarrow> a\<lparr>indexedDb := s'\<rparr>
     | (Inr k, s') \<Rightarrow>
         if hasValidItemId item then spawn (ConflictRemove e item rest) (a\<lparr>indexedDb := s'\<rparr>)
         else handleClientError_finish rest (a\<lparr>indexedDb := s'\<rparr>))"

definition handleClientError_removed :: "int \<Rightarrow> js_error \<Rightarrow> outbox_item \<Rightarrow> outbox_item list \<Rightarrow>
    app \<Rightarrow> app" where
  "handleClientError_removed now e item rest a =
    (case removeFromOutbox (key_of item) now (indexedDb a) of
       (Inl err, s') \<Rightarrow> a\<lparr>indexedDb := s'\<rparr>
     | (Inr u, s') \<Rightarrow> handleClientError_finish rest (a\<lparr>indexedDb := s'\<rparr>))"

text \<open>
  \<open>handleSyncError\<close>: a client error is parked; on any other error the status is
  published and the error is thrown again, which fails the stream.
\<close>

definition handleSyncError :: "js_error \<Rightarrow> outbox_item \<Rightarrow> outbox_item list \<Rightarrow> app \<Rightarrow> app" where
  "handleSyncError e item rest a =
    (if (case error_status e of Some st \<Rightarrow> isClientError st | None \<Rightarrow> False)
     then handleClientError e item rest a
     else handleServerError a)"

subsection \<open>Cooperative scheduling\<close>

text \<open>
  One step of the event loop: a caller invokes \<open>sync\<close>, a suspended store call
  resolves, or the transport settles the request in flight with a value or an error.
  A step is possible only for a continuation that is suspended.
\<close>

datatype event =
    CallSync
  | Resume task
  | Respond outbox_item "outbox_item list" "js_error + json"

fun resume :: "int \<Rightarrow> task \<Rightarrow> app \<Rightarrow> app option" where
  "resume now SyncAwaitOutbox a = Some (sync_resumed now a)"
| "resume now (InFlight item rest) a = None"
| "resume now (RemoveOnSuccess item) a = Some (handleSuccessfulRequest_resumed now item a)"
| "resume now (ConflictAdd e item rest) a = Some (handleClientError_added now e item rest a)"
| "resume now (ConflictRemove e item rest) a = Some (handleClientError_removed now e item rest a)"
| "resume now CompleteAwaitOutbox a = Some (handleSyncComplete_resumed now a)"

definition respond :: "outbox_item \<Rightarrow> outbox_item list \<Rightarrow> js_error + json \<Rightarrow> app \<Rightarrow> app" where
  "respond item rest r a =
    (case r of
       Inr response \<Rightarrow> item_succeeded item rest response a
     | Inl e \<Rightarrow> handleSyncError e item rest a)"

definition unsuspend :: "task \<Rightarrow> app \<Rightarrow> app" where
  "unsuspend t a = a\<lparr>suspended := remove1 t (suspended a)\<rparr>"

definition step :: "int \<Rightarrow> event \<Rightarrow> app \<Rightarrow> app option" where
  "step now ev a =
    (case ev of
       CallSync \<Rightarrow> Some (sync a)
     | Resume t \<Rightarrow> if t \<in> set (suspended a) then resume now t (unsuspend t a) else None
     | Respond item rest r \<Rightarrow>
         if InFlight item rest \<in> set (suspended a)
         then Some (respond item rest r (unsuspend (InFlight item rest) a))
         else None)"

fun run :: "(int \<times> event) list \<Rightarrow> app \<Rightarrow> app option" where
  "run [] a = Some a"
| "run ((now, ev) # es) a = (case step now ev a of None \<Rightarrow> None | Some a' \<Rightarrow> run es a')"

section \<open>Overlapping calls of init\<close>

text \<open>
  \<open>init\<close> above runs a call from its start to its end. Here a call is cut at each
  \<^verbatim>\<open>await\<close>, so that several calls can take turns:
  \<^item> \<open>InitOpen\<close>: \<^verbatim>\<open>init\<close> at \<^verbatim>\<open>this.db = await openDB(...)\<close>;
  \<^item> \<open>InitCount\<close>: \<^verbatim>\<open>initializeSampleData\<close> at \<^verbatim>\<open>await this.db.count('sessionNotes')\<close>;
  \<^item> \<open>InitAdd notes\<close>: the loop of \<^verbatim>\<open>initializeSampleData\<close> at
    \<^verbatim>\<open>await this.db.add('sessionNotes', sampleNotes[i])\<close>, where \<open>notes\<close> are the
    sample notes from index \<^verbatim>\<open>i\<close> on.
\<close>

datatype init_task =
    InitOpen
  | InitCount
  | InitAdd "session_note list"

datatype init_event =
    InitCall
  | InitResume init_task

type_synonym init_world = "idb_service \<times> init_task list"

text \<open>The guard of \<open>init\<close>, and the call of \<^verbatim>\<open>openDB\<close> that it lets through.\<close>

definition init_call :: "init_world \<Rightarrow> init_world" where
  "init_call w = (case w of (s, ts) \<Rightarrow> if db s \<noteq> None then (s, ts) else (s, ts @ [InitOpen]))"

text \<open>
  What follows each \<^verbatim>\<open>await\<close>. A rejection of \<^verbatim>\<open>openDB\<close> and the missing store end the call
  with an exception; an exception of \<^verbatim>\<open>count\<close> or \<^verbatim>\<open>add\<close> is caught and ends the seeding.
\<close>

fun init_resume :: "int \<Rightarrow> init_task \<Rightarrow> init_world \<Rightarrow> init_world" where
  "init_resume now InitOpen (s, ts) =
    (case openDB s of
       (Inl e, s1) \<Rightarrow> (s1, ts)
     | (Inr h, s1) \<Rightarrow>
         let s2 = s1\<lparr>db := Some h\<rparr>
         in if ''sessionNotes'' \<notin> set (objectStoreNames s2) then (s2, ts)
            else (s2, ts @ [InitCount]))"
| "init_resume now InitCount (s, ts) =
    (case count_sessionNotes s of
       (Inl e, s1) \<Rightarrow> (s1, ts)
     | (Inr c, s1) \<Rightarrow> if c = 0 then (s1, ts @ [InitAdd (sampleNotes now)]) else (s1, ts))"
| "init_resume now (InitAdd []) (s, ts) = (s, ts)"
| "init_resume now (InitAdd (n # ns)) (s, ts) =
    (case add_sessionNote n s of
       (Inl e, s1) \<Rightarrow> (s1, ts)
     | (Inr k, s1) \<Rightarrow> if ns = [] then (s1, ts) else (s1, ts @ [InitAdd ns]))"

definition init_step :: "int \<Rightarrow> init_event \<Rightarrow> init_world \<Rightarrow> init_world option" where
  "init_step now ev w =
    (case ev of
       InitCall \<Rightarrow> Some (init_call w)
     | InitResume t \<Rightarrow>
         if t \<in> set (snd w) then Some (init_resume now t (fst w, remove1 t (snd w))) else None)"

fun init_run :: "(int \<times> init_event) list \<Rightarrow> init_world \<Rightarrow> init_world option" where
  "init_run [] w = Some w"
| "init_run ((now, ev) # es) w =
    (case init_step now ev w of None \<Rightarrow> None | Some w' \<Rightarrow> init_run es w')"

text \<open>Two calls of \<open>init\<close> on a new device, the second before the first has opened the database.\<close>

definition two_inits :: "(int \<times> init_event) list" where
  "two_inits =
    [(1000, InitCall), (1000, InitCall),
     (1001, InitResume InitOpen), (1002, InitResume InitOpen),
     (1003, InitResume InitCount), (1004, InitResume InitCount),
     (1005, InitResume (InitAdd (sampleNotes 1003))),
     (1006, InitResume (InitAdd (sampleNotes 1004))),
     (1007, InitResume (InitAdd (tl (sampleNotes 1003))))]"

text \<open>One call of \<open>init\<close> at time \<open>now\<close>, left to itself.\<close>

definition one_init :: "int \<Rightarrow> (int \<times> init_event) list" where
  "one_init now =
    [(now, InitCall), (now, InitResume InitOpen), (now, InitResume InitCount),
     (now, InitResume (InitAdd (sampleNotes now))),
     (now, InitResume (InitAdd (tl (sampleNotes now))))]"

text \<open>
  What overlapping calls of \<open>init\<close> that started from the database \<open>s0\<close> keep true:
  the upgrade has run at most once, and only for a version below \<open>dbVersion\<close>; a store
  that does not exist has no rows; notes that were there before are all there is, and
  otherwise the notes are the first sample note, or both, or none; a call that is adding
  the second sample note has added the first.
\<close>

definition init_inv :: "idb_service \<Rightarrow> init_world \<Rightarrow> bool" where
  "init_inv s0 w =
    (case w of (s, ts) \<Rightarrow>
       ((version s = version s0 \<and> upgrades s = upgrades s0)
         \<or> (version s0 < dbVersion \<and> version s = dbVersion \<and> upgrades s = upgrades s0 + 1))
     \<and> opened s0 \<le> opened s \<and> (opened s0 < opened s \<longrightarrow> version s = dbVersion)
     \<and> (''sessionNotes'' \<notin> set (objectStoreNames s) \<longrightarrow> sessionNotes s = [])
     \<and> ((sessionNotes s0 \<noteq> [] \<and> sessionNotes s = sessionNotes s0
            \<and> list_all (\<lambda>t. \<forall>ns. t \<noteq> InitAdd ns) ts)
         \<or> (sessionNotes s0 = []
            \<and> map note_id (sessionNotes s) \<in> {[], [''1''], [''1'', ''2'']}
            \<and> list_all (\<lambda>t. \<forall>ns. t = InitAdd ns \<longrightarrow>
                  map note_id ns = [''1'', ''2'']
                  \<or> (map note_id ns = [''2''] \<and> sessionNotes s \<noteq> [])) ts)))"

section \<open>States used in the properties\<close>

text \<open>The store is open and holds its four collections: what a successful \<open>init\<close> leaves.\<close>

definition ready :: "idb_service \<Rightarrow> bool" where
  "ready s = (db s \<noteq> None \<and> ''outbox'' \<in> set (objectStoreNames s)
     \<and> ''syncConflicts'' \<in> set (objectStoreNames s)
     \<and> ''cache'' \<in> set (objectStoreNames s)
     \<and> ''sessionNotes'' \<in> set (objectStoreNames s))"

text \<open>A device on which the database has never been created.\<close>

definition no_database :: idb_service where
  "no_database = \<lparr>db = None, version = 0, objectStoreNames = [], outbox = [], outbox_keygen = 0,
     syncConflicts = [], syncConflicts_keygen = 0, cache = Map.empty, sessionNotes = [],
     opened = 0, upgrades = 0\<rparr>"

text \<open>
  The store is closed and cannot be opened: the device holds the database at a version
  above the one this build of the application asks for, so that \<open>openDB\<close> is rejected.
\<close>

definition cannot_open :: "idb_service \<Rightarrow> bool" where
  "cannot_open s = (db s = None \<and> dbVersion < version s)"

text \<open>A device on which a later build of the application has left the database at version 4.\<close>

definition newer_database :: idb_service where
  "newer_database = \<lparr>db = None, version = 4,
     objectStoreNames = [''outbox'', ''syncConflicts'', ''cache'', ''sessionNotes''],
     outbox = [], outbox_keygen = 0, syncConflicts = [], syncConflicts_keygen = 0,
     cache = Map.empty, sessionNotes = [], opened = 0, upgrades = 0\<rparr>"

definition idle :: sync_status where
  "idle = \<lparr>isSyncing = False, totalItems = 0, completedItems = 0, failedItems = 0\<rparr>"

text \<open>The application after its initializer has run \<open>init\<close> at time \<open>1000\<close>.\<close>

definition started_app :: "bool \<Rightarrow> app" where
  "started_app on = \<lparr>indexedDb = snd (init 1000 no_database), onLine = on,
     currentStatus = idle, published = [], requests = [], suspended = []\<rparr>"

text \<open>
  The application on that device after its initializer has run \<open>init\<close> at time \<open>1000\<close>:
  the initializer catches the rejection and the application starts.
\<close>

definition unopened_app :: "bool \<Rightarrow> app" where
  "unopened_app on = \<lparr>indexedDb = snd (init 1000 newer_database), onLine = on,
     currentStatus = idle, published = [], requests = [], suspended = []\<rparr>"

text \<open>A transport that answers every request with one response.\<close>

definition answering :: "nat \<Rightarrow> json \<Rightarrow> http_request \<Rightarrow> http_event observed" where
  "answering st b req = ([HttpResponse \<lparr>status = st, statusText = ''OK'', body = b\<rparr>], Complete)"

definition field :: "json \<Rightarrow> string \<Rightarrow> json option" where
  "field j k = (case j of JObj kvs \<Rightarrow> map_of kvs k | _ \<Rightarrow> None)"

section \<open>Requests and helpers used in the properties\<close>

definition put_false :: http_request where
  "put_false = \<lparr>req_method = ''PUT'', req_url = ''/api/flags/1'', req_body = JBool False\<rparr>"

definition put_note :: http_request where
  "put_note = \<lparr>req_method = ''PUT'', req_url = ''/api/session-notes/1'',
     req_body = JObj [(''note'', JStr ''x'')]\<rparr>"

definition get_notes :: http_request where
  "get_notes = \<lparr>req_method = ''GET'', req_url = ''/api/session-notes'', req_body = JNull\<rparr>"

definition offline_message :: "string \<Rightarrow> string" where
  "offline_message m =
    (if m = ''POST'' then ''Saved offline, will sync when online''
     else if m = ''PUT'' then ''Updated offline, will sync when online''
     else ''Delete queued offline, will sync when online'')"

definition cache_write :: "string \<Rightarrow> int \<Rightarrow> http_event \<Rightarrow> (string \<rightharpoonup> cache_item) \<Rightarrow> (string \<rightharpoonup> cache_item)" where
  "cache_write u now ev c =
    (case ev of
       HttpResponse r \<Rightarrow>
         if status r = 200 then c(u \<mapsto> \<lparr>key = u, data = body r, cached_at = now\<rparr>) else c
     | HttpOtherEvent t \<Rightarrow> c)"

text \<open>
  The application after an online GET was answered with status 200 and a null body, and
  the connection was then lost.
\<close>

definition cached_null_app :: app where
  "cached_null_app =
    (snd (intercept get_notes (answering 200 JNull) 2000 (started_app True)))\<lparr>onLine := False\<rparr>"


section \<open>Drains used in the properties\<close>

text \<open>The request that replays an item, for an item whose method is POST, PUT or DELETE.\<close>

definition request_of :: "outbox_item \<Rightarrow> http_request" where
  "request_of item =
    \<lparr>req_method = http_method item, req_url = url item,
     req_body = (if http_method item = ''DELETE'' then JNull else payload item)\<rparr>"

definition replayable :: "outbox_item \<Rightarrow> bool" where
  "replayable item = (hasValidItemId item \<and> isMutationMethod (http_method item))"

text \<open>
  The application after \<open>put_note\<close> was submitted offline at time \<open>2000\<close> and the
  connection came back, and the row that the submission left in the outbox.
\<close>

definition queued_app :: app where
  "queued_app =
    (snd (intercept put_note (answering 200 JNull) 2000 (started_app False)))\<lparr>onLine := True\<rparr>"

definition queued_item :: outbox_item where
  "queued_item = \<lparr>url = ''/api/session-notes/1'', http_method = ''PUT'',
     payload = JObj [(''note'', JStr ''x'')], timestamp = 2000, item_id = Some 1\<rparr>"

text \<open>An error that \<open>handleSyncError\<close> classifies as a client error.\<close>

definition client_error :: "js_error \<Rightarrow> bool" where
  "client_error e = (case error_status e of Some st \<Rightarrow> isClientError st | None \<Rightarrow> False)"

text \<open>
  Rows of the outbox as \<open>addToOutbox\<close> leaves them when it is called for mutations:
  listed in the order of their insertion, with keys that grow and that the key generator
  has handed out.
\<close>

definition queue_ok :: "idb_service \<Rightarrow> bool" where
  "queue_ok s = (list_all replayable (outbox s)
     \<and> list_all (\<lambda>r. key_of r \<le> outbox_keygen s) (outbox s)
     \<and> sorted_wrt (<) (map key_of (outbox s)))"

text \<open>
  The continuations of one drain: the removals that \<open>handleSuccessfulRequest\<close> has
  started, and the others, of which a drain has at most one at a time.
\<close>

fun is_removal :: "task \<Rightarrow> bool" where
  "is_removal (RemoveOnSuccess y) = True"
| "is_removal t = False"

definition mains :: "task list \<Rightarrow> task list" where
  "mains ts = filter (\<lambda>t. \<not> is_removal t) ts"

fun is_InFlight :: "task \<Rightarrow> bool" where
  "is_InFlight (InFlight x r) = True"
| "is_InFlight t = False"

fun current :: "task \<Rightarrow> (outbox_item \<times> outbox_item list) option" where
  "current (InFlight x r) = Some (x, r)"
| "current (ConflictAdd e x r) = Some (x, r)"
| "current (ConflictRemove e x r) = Some (x, r)"
| "current t = None"

text \<open>
  The state of a drain of the snapshot \<open>xs\<close> that has dealt with the first \<open>m\<close> items,
  when \<open>R0\<close> were the requests made before it. The drain is at item \<open>m\<close>, or is
  completing, or is over; it may have stopped early only when \<open>h\<close> holds.
\<close>

definition drain_at :: "bool \<Rightarrow> outbox_item list \<Rightarrow> http_request list \<Rightarrow> nat \<Rightarrow> app \<Rightarrow> bool" where
  "drain_at h xs R0 m a =
    (ready (indexedDb a) \<and> m \<le> length xs
     \<and> list_all (\<lambda>t. is_removal t \<longrightarrow> (\<exists>y. t = RemoveOnSuccess y \<and> y \<in> set (take m xs)))
          (suspended a)
     \<and> set (drop m xs) \<subseteq> set (outbox (indexedDb a))
     \<and> requests a = R0 @ map request_of (take (Suc m) xs)
     \<and> ((mains (suspended a) = [] \<and> (h \<or> m = length xs))
        \<or> (m < length xs
            \<and> (\<exists>t. mains (suspended a) = [t] \<and> current t = Some (xs ! m, drop (Suc m) xs)))
        \<or> (m = length xs \<and> mains (suspended a) = [CompleteAwaitOutbox])))"

text \<open>Events of a drain that is left alone, and those among them that are no failure.\<close>

fun internal :: "event \<Rightarrow> bool" where
  "internal CallSync = False"
| "internal ev = True"

fun succeeding :: "event \<Rightarrow> bool" where
  "succeeding CallSync = False"
| "succeeding (Resume t) = True"
| "succeeding (Respond x r (Inr v)) = True"
| "succeeding (Respond x r (Inl e)) = False"

fun fatal :: "event \<Rightarrow> bool" where
  "fatal (Respond x r (Inl e)) = (\<not> client_error e)"
| "fatal ev = False"

text \<open>
  The statuses of a drain of \<open>n\<close> items. Each item that has been dealt with is recorded
  as \<open>True\<close> when its call succeeded and as \<open>False\<close> when it was parked as a conflict.
  \<open>status_after n os\<close> is the status once the items recorded in \<open>os\<close> are dealt with, and
  \<open>statuses n os\<close> lists the status of the start and the one after each of these items.
\<close>

definition status_after :: "nat \<Rightarrow> bool list \<Rightarrow> sync_status" where
  "status_after n os =
    \<lparr>isSyncing = True, totalItems = n, completedItems = length os,
     failedItems = length (filter Not os)\<rparr>"

definition statuses :: "nat \<Rightarrow> bool list \<Rightarrow> sync_status list" where
  "statuses n os = map (\<lambda>k. status_after n (take k os)) [0..<Suc (length os)]"

text \<open>
  What a step records: a call that succeeds, and the end of the parking of a rejected
  item.
\<close>

fun outcome :: "event \<Rightarrow> bool list" where
  "outcome (Respond x r (Inr v)) = [True]"
| "outcome (Resume (ConflictRemove e x r)) = [False]"
| "outcome ev = []"

definition outcomes :: "(int \<times> event) list \<Rightarrow> bool list" where
  "outcomes es = concat (map (\<lambda>(t, ev). outcome ev) es)"

text \<open>
  The status that a drain publishes when it halts: the current counters, with
  \<open>isSyncing\<close> off.
\<close>

definition halted_status :: "nat \<Rightarrow> bool list \<Rightarrow> sync_status" where
  "halted_status n os =
    \<lparr>isSyncing = False, totalItems = n, completedItems = length os,
     failedItems = length (filter Not os)\<rparr>"

text \<open>
  The state of a drain of the snapshot \<open>xs\<close>, with the statuses it has published since
  \<open>P0\<close>, when the items recorded in \<open>os\<close> are dealt with; \<open>hl\<close> tells whether a call has
  failed other than with a client error.
\<close>

definition drain_status :: "outbox_item list \<Rightarrow> http_request list \<Rightarrow> sync_status list \<Rightarrow>
    bool list \<Rightarrow> bool \<Rightarrow> app \<Rightarrow> bool" where
  "drain_status xs R0 P0 os hl a =
    (drain_at True xs R0 (length os) a
     \<and> (if hl
         then mains (suspended a) = [] \<and> length os < length xs
              \<and> published a = P0 @ statuses (length xs) os @ [halted_status (length xs) os]
              \<and> currentStatus a = halted_status (length xs) os
         else if mains (suspended a) = []
         then length os = length xs
              \<and> published a = P0 @ statuses (length xs) os @ [idle] \<and> currentStatus a = idle
         else published a = P0 @ statuses (length xs) os
              \<and> currentStatus a = status_after (length xs) os))"

text \<open>The body with which the backend answers a replayed request in the examples.\<close>

definition saved :: json where
  "saved = JObj [(''id'', JStr ''n1'')]"

text \<open>
  An application that is online with three rows in its outbox, the first two queued in
  the same millisecond.
\<close>

definition item_A :: outbox_item where
  "item_A = \<lparr>url = ''/api/session-notes'', http_method = ''POST'',
     payload = JObj [(''note'', JStr ''a'')], timestamp = 2000, item_id = Some 1\<rparr>"

definition item_B :: outbox_item where
  "item_B = \<lparr>url = ''/api/session-notes/1'', http_method = ''PUT'',
     payload = JObj [(''note'', JStr ''b'')], timestamp = 2000, item_id = Some 2\<rparr>"

definition item_C :: outbox_item where
  "item_C = \<lparr>url = ''/api/session-notes/2'', http_method = ''DELETE'',
     payload = JObj [], timestamp = 2001, item_id = Some 3\<rparr>"

definition three_queued :: app where
  "three_queued = (started_app True)\<lparr>indexedDb := (indexedDb (started_app True))\<lparr>
     outbox := [item_A, item_B, item_C], outbox_keygen := 3\<rparr>\<rparr>"

definition bad_request :: js_error where
  "bad_request = HttpErrorResponse 400 ''Bad Request''"

definition server_error :: js_error where
  "server_error = HttpErrorResponse 500 ''Internal Server Error''"

text \<open>The three rows are replayed: the second is rejected, the others succeed.\<close>

definition second_rejected :: "(int \<times> event) list" where
  "second_rejected =
    [(3000, CallSync), (3001, Resume SyncAwaitOutbox),
     (3002, Respond item_A [item_B, item_C] (Inr saved)),
     (3003, Resume (RemoveOnSuccess item_A)),
     (3004, Respond item_B [item_C] (Inl bad_request)),
     (3005, Resume (ConflictAdd bad_request item_B [item_C])),
     (3006, Resume (ConflictRemove bad_request item_B [item_C])),
     (3007, Respond item_C [] (Inr saved)),
     (3008, Resume CompleteAwaitOutbox),
     (3009, Resume (RemoveOnSuccess item_C))]"

text \<open>The three rows are replayed and every call succeeds.\<close>

definition all_succeed :: "(int \<times> event) list" where
  "all_succeed =
    [(3002, Respond item_A [item_B, item_C] (Inr saved)),
     (3003, Resume (RemoveOnSuccess item_A)),
     (3004, Respond item_B [item_C] (Inr saved)),
     (3005, Respond item_C [] (Inr saved)),
     (3006, Resume CompleteAwaitOutbox)]"

text \<open>
  A POST is submitted offline when the clock reads \<open>5000\<close>, then a PUT when the clock,
  set back in between, reads \<open>4000\<close>; then the connection returns.
\<close>

definition post_note :: http_request where
  "post_note = \<lparr>req_method = ''POST'', req_url = ''/api/session-notes'',
     req_body = JObj [(''note'', JStr ''y'')]\<rparr>"

definition clock_set_back :: app where
  "clock_set_back =
    (snd (intercept put_note (answering 200 JNull) 4000
       (snd (intercept post_note (answering 200 JNull) 5000 (started_app False)))))\<lparr>onLine := True\<rparr>"

definition post_late :: outbox_item where
  "post_late = \<lparr>url = ''/api/session-notes'', http_method = ''POST'',
     payload = JObj [(''note'', JStr ''y'')], timestamp = 5000, item_id = Some 1\<rparr>"

definition put_early :: outbox_item where
  "put_early = \<lparr>url = ''/api/session-notes/1'', http_method = ''PUT'',
     payload = JObj [(''note'', JStr ''x'')], timestamp = 4000, item_id = Some 2\<rparr>"

text \<open>The first call succeeds, the second fails with status 500, then the first row is removed.\<close>

definition second_fails :: "(int \<times> event) list" where
  "second_fails =
    [(3000, CallSync), (3001, Resume SyncAwaitOutbox),
     (3002, Respond item_A [item_B, item_C] (Inr saved)),
     (3003, Respond item_B [item_C] (Inl server_error)),
     (3004, Resume (RemoveOnSuccess item_A))]"

text \<open>
  The drain of the three rows when it has started, and when the first call has succeeded
  and the second is in flight.
\<close>

definition three_started :: app where
  "three_started = processOutboxItems [item_A, item_B, item_C] (startSync 3 three_queued)"

definition second_in_flight :: app where
  "second_in_flight =
    item_succeeded item_A [item_B, item_C] saved
      (unsuspend (InFlight item_A [item_B, item_C]) three_started)"

text \<open>The second call is rejected: the response and the first store call, then the second.\<close>

definition second_half_parked :: "(int \<times> event) list" where
  "second_half_parked =
    [(3005, Respond item_B [item_C] (Inl bad_request)),
     (3006, Resume (ConflictAdd bad_request item_B [item_C]))]"

definition second_parked :: "(int \<times> event) list" where
  "second_parked =
    second_half_parked @ [(3007, Resume (ConflictRemove bad_request item_B [item_C]))]"

section \<open>The store once it is open\<close>

lemma init_ready: "ready s \<Longrightarrow> init now s = (Inr (), s)"
  by (simp add: init_def ready_def)

lemma addToOutbox_ready:
  "ready s \<Longrightarrow> addToOutbox item now s =
     (Inr (outbox_keygen s + 1),
      s\<lparr>outbox := outbox s @ [item\<lparr>timestamp := (if timestamp item \<noteq> 0 then timestamp item else now),
                                   item_id := Some (outbox_keygen s + 1)\<rparr>],
        outbox_keygen := outbox_keygen s + 1\<rparr>)"
  by (simp add: addToOutbox_def bind_io_def init_ready ensureDatabaseInitialized_def add_outbox_def Let_def)
     (simp add: ready_def)

lemma getOutbox_ready: "ready s \<Longrightarrow> getOutbox now s = (Inr (by_timestamp (outbox s)), s)"
  by (simp add: getOutbox_def bind_io_def init_ready ensureDatabaseInitialized_def)
     (simp add: ready_def)

lemma removeFromOutbox_ready:
  "ready s \<Longrightarrow> removeFromOutbox k now s =
     (Inr (), s\<lparr>outbox := filter (\<lambda>r. item_id r \<noteq> Some k) (outbox s)\<rparr>)"
  by (simp add: removeFromOutbox_def bind_io_def init_ready ensureDatabaseInitialized_def)
     (simp add: ready_def)

lemma addToSyncConflicts_ready:
  "ready s \<Longrightarrow> addToSyncConflicts c now s =
     (Inr (syncConflicts_keygen s + 1),
      s\<lparr>syncConflicts := syncConflicts s @
           [c\<lparr>timestamp := (if timestamp c \<noteq> 0 then timestamp c else now),
              conflict_id := Some (syncConflicts_keygen s + 1)\<rparr>],
        syncConflicts_keygen := syncConflicts_keygen s + 1\<rparr>)"
  by (simp add: addToSyncConflicts_def bind_io_def init_ready ensureDatabaseInitialized_def
        add_syncConflicts_def Let_def)
     (simp add: ready_def)

lemma cacheGet_ready:
  "ready s \<Longrightarrow> cacheGet k d now s =
     (Inr (), s\<lparr>cache := (cache s)(k \<mapsto> \<lparr>key = k, data = d, cached_at = now\<rparr>)\<rparr>)"
  by (simp add: cacheGet_def bind_io_def init_ready ensureDatabaseInitialized_def)
     (simp add: ready_def)

lemma getCached_ready:
  "ready s \<Longrightarrow> getCached k now s =
     (Inr (case cache s k of Some item \<Rightarrow> data item | None \<Rightarrow> JNull), s)"
  by (simp add: getCached_def bind_io_def init_ready ensureDatabaseInitialized_def)
     (simp add: ready_def)

lemma ready_started: "ready (indexedDb (started_app on))"
  by (simp add: started_app_def init_def no_database_def openDB_def dbVersion_def upgrade_def
        Let_def initializeSampleData_def count_sessionNotes_def sampleNotes_def
        add_sessionNote_def ready_def)

section \<open>Properties of the request router\<close>

lemma mutation_response_fields:
  "isMutationMethod m \<Longrightarrow>
     field (createOfflineMutationResponse m b) ''success'' = Some (JBool True) \<and>
     field (createOfflineMutationResponse m b) ''message'' = Some (JStr (offline_message m))"
  by (auto simp: isMutationMethod_def createOfflineMutationResponse_def field_def offline_message_def)

lemma intercept_offline_mutation:
  assumes "ready (indexedDb a)" and "\<not> onLine a" and "isMutationMethod (req_method req)"
  shows "intercept req backend now a =
      (([HttpResponse \<lparr>status = 200, statusText = ''OK'',
           body = createOfflineMutationResponse (req_method req) (req_body req)\<rparr>], Complete),
       a\<lparr>indexedDb := (indexedDb a)\<lparr>
            outbox := outbox (indexedDb a) @
              [\<lparr>url = req_url req, http_method = req_method req,
                payload = (if truthy (req_body req) then req_body req else JObj []),
                timestamp = now, item_id = Some (outbox_keygen (indexedDb a) + 1)\<rparr>],
            outbox_keygen := outbox_keygen (indexedDb a) + 1\<rparr>\<rparr>)"
  using assms
  by (simp add: intercept_def handleOfflineMutation_def addToOutbox_ready from_promise_def
        HTTP_STATUS_OK_def Let_def)

lemma intercept_offline_get:
  assumes "ready (indexedDb a)" and "\<not> onLine a" and "isGetMethod (req_method req)"
  shows "intercept req backend now a =
      ((case cache (indexedDb a) (req_url req) of
          Some item \<Rightarrow>
            if truthy (data item)
            then [HttpResponse \<lparr>status = 200, statusText = ''OK (Cached)'', body = data item\<rparr>]
            else [HttpResponse \<lparr>status = 503, statusText = ''Service Unavailable'',
                    body = JObj [(''error'', JStr ''No cached data available and device is offline'')]\<rparr>]
        | None \<Rightarrow>
            [HttpResponse \<lparr>status = 503, statusText = ''Service Unavailable'',
               body = JObj [(''error'', JStr ''No cached data available and device is offline'')]\<rparr>],
        Complete), a)"
proof -
  have "\<not> isMutationMethod (req_method req)"
    using assms(3) by (simp add: isGetMethod_def isMutationMethod_def)
  then show ?thesis
    using assms
    by (simp add: intercept_def handleOfflineGet_def getCached_ready from_promise_def
          createCachedResponse_def createServiceUnavailableResponse_def HTTP_STATUS_OK_def
          HTTP_STATUS_SERVICE_UNAVAILABLE_def Let_def split: option.splits)
qed

text \<open>
  Claim C5, as amended. While offline, on an open store, a POST, PUT or DELETE request is
  answered without any call of the transport by one synthesized response of status 200
  whose body has \<open>success: true\<close> and the message of its method, and exactly one row is
  appended to the outbox. The row has the url and the method of the request; its payload
  is the body of the request when that body is truthy and the empty object otherwise.
\<close>

theorem offline_mutation_queued:
  assumes "ready (indexedDb a)" and "\<not> onLine a" and "isMutationMethod (req_method req)"
  shows "intercept req backend now a =
      (([HttpResponse \<lparr>status = 200, statusText = ''OK'',
           body = createOfflineMutationResponse (req_method req) (req_body req)\<rparr>], Complete),
       a\<lparr>indexedDb := (indexedDb a)\<lparr>
            outbox := outbox (indexedDb a) @
              [\<lparr>url = req_url req, http_method = req_method req,
                payload = (if truthy (req_body req) then req_body req else JObj []),
                timestamp = now, item_id = Some (outbox_keygen (indexedDb a) + 1)\<rparr>],
            outbox_keygen := outbox_keygen (indexedDb a) + 1\<rparr>\<rparr>)
    \<and> requests (snd (intercept req backend now a)) = requests a
    \<and> field (createOfflineMutationResponse (req_method req) (req_body req)) ''success''
        = Some (JBool True)
    \<and> field (createOfflineMutationResponse (req_method req) (req_body req)) ''message''
        = Some (JStr (offline_message (req_method req)))"
  using intercept_offline_mutation [OF assms, of backend now]
    mutation_response_fields [OF assms(3), of "req_body req"]
  by simp

text \<open>
  Claim C6, as amended. While offline, on an open store, a GET request whose url has a
  cache entry with a truthy body is answered by a response of status 200, status text
  \<open>OK (Cached)\<close>, carrying that body; when there is no entry, or the body of the entry is
  falsy, the answer is a response of status 503 with an explanatory message. In each case
  the state is unchanged: no collection is modified and the transport is not called.
\<close>

theorem offline_get_served:
  assumes "ready (indexedDb a)" and "\<not> onLine a" and "isGetMethod (req_method req)"
  shows "intercept req backend now a =
      ((case cache (indexedDb a) (req_url req) of
          Some item \<Rightarrow>
            if truthy (data item)
            then [HttpResponse \<lparr>status = 200, statusText = ''OK (Cached)'', body = data item\<rparr>]
            else [HttpResponse \<lparr>status = 503, statusText = ''Service Unavailable'',
                    body = JObj [(''error'', JStr ''No cached data available and device is offline'')]\<rparr>]
        | None \<Rightarrow>
            [HttpResponse \<lparr>status = 503, statusText = ''Service Unavailable'',
               body = JObj [(''error'', JStr ''No cached data available and device is offline'')]\<rparr>],
        Complete), a)"
  using assms by (rule intercept_offline_get)

lemma cache_event_ready:
  "ready (indexedDb a) \<Longrightarrow>
     cache_event u now ev a =
       a\<lparr>indexedDb := (indexedDb a)\<lparr>cache := cache_write u now ev (cache (indexedDb a))\<rparr>\<rparr>"
  by (cases ev) (simp_all add: cache_event_def cache_write_def cacheGet_ready HTTP_STATUS_OK_def)

lemma ready_cache_update: "ready (s\<lparr>cache := c\<rparr>) = ready s"
  by (simp add: ready_def)

lemma fold_cache_event:
  "ready (indexedDb a) \<Longrightarrow>
     fold (cache_event u now) evs a =
       a\<lparr>indexedDb := (indexedDb a)\<lparr>cache := fold (cache_write u now) evs (cache (indexedDb a))\<rparr>\<rparr>"
proof (induction evs arbitrary: a)
  case Nil
  then show ?case by simp
next
  case (Cons ev evs)
  let ?a1 = "cache_event u now ev a"
  have a1: "?a1 = a\<lparr>indexedDb := (indexedDb a)\<lparr>cache := cache_write u now ev (cache (indexedDb a))\<rparr>\<rparr>"
    using Cons.prems by (rule cache_event_ready)
  then have "ready (indexedDb ?a1)"
    using Cons.prems by (simp add: ready_cache_update)
  from Cons.IH [OF this] show ?case
    by (simp add: a1)
qed

subsection \<open>A store that cannot be opened\<close>

lemma init_cannot_open:
  "cannot_open s \<Longrightarrow> init now s = (Inl (DOMException ''VersionError''), s)"
  by (simp add: cannot_open_def init_def openDB_def)

lemma store_calls_cannot_open:
  assumes "cannot_open s"
  shows "addToOutbox item now s = (Inl (DOMException ''VersionError''), s)"
    and "getCached k now s = (Inl (DOMException ''VersionError''), s)"
    and "cacheGet k d now s = (Inl (DOMException ''VersionError''), s)"
  using init_cannot_open [OF assms, of now]
  by (simp_all add: addToOutbox_def getCached_def cacheGet_def bind_io_def)

lemma cache_event_cannot_open:
  "cannot_open (indexedDb a) \<Longrightarrow> cache_event u now ev a = a"
  by (cases ev) (simp_all add: cache_event_def store_calls_cannot_open)

lemma fold_cache_event_cannot_open:
  "cannot_open (indexedDb a) \<Longrightarrow> fold (cache_event u now) evs a = a"
  by (induction evs) (simp_all add: cache_event_cannot_open)

lemma intercept_cannot_open_store:
  assumes c: "cannot_open (indexedDb a)"
  shows "indexedDb (snd (intercept req backend now a)) = indexedDb a"
proof -
  obtain evs e where b: "backend req = (evs, e)" by (cases "backend req")
  show ?thesis
    using c
    by (simp add: intercept_def handleOfflineMutation_def handleOfflineGet_def
          handleOnlineGet_def handle_def store_calls_cannot_open from_promise_def Let_def b
          fold_cache_event_cannot_open)
qed






lemma cannot_open_unopened: "cannot_open (indexedDb (unopened_app on))"
  by (simp add: unopened_app_def init_def openDB_def newer_database_def dbVersion_def
        cannot_open_def)

text \<open>
  Claim C7, as amended. On an open store, a request changes the cache exactly when it is
  a GET issued online: then every response event of status 200 writes the entry of the
  request url with the body of the response. A response of any other status, and every
  other request, leaves the cache as it was. On a store that cannot be opened no request
  changes the store: the cache write of an online GET answered with status 200 is
  rejected, and the rejection is only logged. In every case the events of the transport
  reach the caller of an online request unchanged.
\<close>

theorem cache_written_by_online_get_200:
  "(ready (indexedDb a) \<longrightarrow>
      cache (indexedDb (snd (intercept req backend now a))) =
        (if onLine a \<and> isGetMethod (req_method req)
         then fold (cache_write (req_url req) now) (fst (backend req)) (cache (indexedDb a))
         else cache (indexedDb a)))
    \<and> (cannot_open (indexedDb a) \<longrightarrow>
          indexedDb (snd (intercept req backend now a)) = indexedDb a)
    \<and> (onLine a \<longrightarrow> fst (intercept req backend now a) = backend req)"
proof (intro conjI impI)
  assume rd: "ready (indexedDb a)"
  show "cache (indexedDb (snd (intercept req backend now a))) =
      (if onLine a \<and> isGetMethod (req_method req)
       then fold (cache_write (req_url req) now) (fst (backend req)) (cache (indexedDb a))
       else cache (indexedDb a))"
  proof (cases "onLine a")
    case True
    then show ?thesis
      using rd
      by (cases "backend req")
         (simp add: intercept_def handleOnlineGet_def handle_def fold_cache_event Let_def)
  next
    case False
    show ?thesis
    proof (cases "isMutationMethod (req_method req)")
      case True
      then show ?thesis
        using False rd intercept_offline_mutation [of a req backend now]
        by simp
    next
      case nm: False
      show ?thesis
      proof (cases "isGetMethod (req_method req)")
        case True
        then show ?thesis
          using False rd intercept_offline_get [of a req backend now] by simp
      next
        case False
        then show ?thesis
          using nm \<open>\<not> onLine a\<close> by (simp add: intercept_def handle_def Let_def)
      qed
    qed
  qed
next
  assume "cannot_open (indexedDb a)"
  then show "indexedDb (snd (intercept req backend now a)) = indexedDb a"
    by (rule intercept_cannot_open_store)
next
  assume "onLine a"
  then show "fst (intercept req backend now a) = backend req"
    by (cases "backend req")
       (simp add: intercept_def handleOnlineGet_def handle_def Let_def)
qed


theorem offline_mutation_queued_witness:
  "ready (indexedDb (started_app False)) \<and> \<not> onLine (started_app False)
   \<and> isMutationMethod (req_method put_note)
   \<and> fst (intercept put_note (answering 200 JNull) 2000 (started_app False)) =
       ([HttpResponse \<lparr>status = 200, statusText = ''OK'',
           body = JObj [(''success'', JBool True),
                        (''message'', JStr ''Updated offline, will sync when online''),
                        (''data'', JObj [(''note'', JStr ''x'')])]\<rparr>], Complete)
   \<and> outbox (indexedDb (snd (intercept put_note (answering 200 JNull) 2000 (started_app False)))) =
       [\<lparr>url = ''/api/session-notes/1'', http_method = ''PUT'',
         payload = JObj [(''note'', JStr ''x'')], timestamp = 2000, item_id = Some 1\<rparr>]
   \<and> requests (snd (intercept put_note (answering 200 JNull) 2000 (started_app False))) = []"
proof -
  have m: "isMutationMethod (req_method put_note)"
    by (simp add: put_note_def isMutationMethod_def)
  have off: "\<not> onLine (started_app False)"
    by (simp add: started_app_def)
  have st: "outbox (indexedDb (started_app False)) = []
      \<and> outbox_keygen (indexedDb (started_app False)) = 0
      \<and> requests (started_app False) = []"
    by (simp add: started_app_def init_def no_database_def openDB_def dbVersion_def upgrade_def
          Let_def initializeSampleData_def count_sessionNotes_def sampleNotes_def
          add_sessionNote_def)
  show ?thesis
    using offline_mutation_queued [OF ready_started off m, of "answering 200 JNull" 2000]
      ready_started [of False] off m st
    by (simp add: put_note_def createOfflineMutationResponse_def)
qed

text \<open>
  Claim C5 as stated fails: a PUT whose body is the JSON value \<open>false\<close> is queued with
  the empty object as its payload.
\<close>

theorem offline_mutation_body_counterexample:
  "payload (last (outbox (indexedDb
      (snd (intercept put_false (answering 200 JNull) 2000 (started_app False))))))
   \<noteq> req_body put_false"
proof -
  have m: "isMutationMethod (req_method put_false)"
    by (simp add: put_false_def isMutationMethod_def)
  have off: "\<not> onLine (started_app False)"
    by (simp add: started_app_def)
  show ?thesis
    by (simp add: intercept_def handleOfflineMutation_def addToOutbox_ready ready_started
          from_promise_def Let_def m off)
       (simp add: put_false_def)
qed

theorem offline_get_served_witness:
  "ready (indexedDb (started_app False)) \<and> \<not> onLine (started_app False)
   \<and> isGetMethod (req_method get_notes)
   \<and> intercept get_notes (answering 200 JNull) 2000 (started_app False) =
       (([HttpResponse \<lparr>status = 503, statusText = ''Service Unavailable'',
            body = JObj [(''error'', JStr ''No cached data available and device is offline'')]\<rparr>],
         Complete), started_app False)"
proof -
  have g: "isGetMethod (req_method get_notes)"
    by (simp add: get_notes_def isGetMethod_def)
  have off: "\<not> onLine (started_app False)"
    by (simp add: started_app_def)
  have c: "cache (indexedDb (started_app False)) (req_url get_notes) = None"
    by (simp add: started_app_def init_def no_database_def openDB_def dbVersion_def upgrade_def
          Let_def initializeSampleData_def count_sessionNotes_def sampleNotes_def
          add_sessionNote_def)
  show ?thesis
    using offline_get_served [OF ready_started off g, of "answering 200 JNull" 2000]
      ready_started [of False] off g c
    by simp
qed

text \<open>
  Claim C6 as stated fails: after an online GET was answered with status 200 and a null
  body, the url has a cache entry, and the same GET issued offline is answered with 503.
\<close>

theorem offline_get_cached_null_counterexample:
  "cache (indexedDb cached_null_app) (req_url get_notes) \<noteq> None
   \<and> fst (intercept get_notes (answering 200 JNull) 3000 cached_null_app) =
       ([HttpResponse \<lparr>status = 503, statusText = ''Service Unavailable'',
           body = JObj [(''error'', JStr ''No cached data available and device is offline'')]\<rparr>],
        Complete)"
proof -
  have g: "isGetMethod (req_method get_notes)"
    by (simp add: get_notes_def isGetMethod_def)
  have on: "onLine (started_app True)"
    by (simp add: started_app_def)
  have a1: "cached_null_app =
      (started_app True)\<lparr>indexedDb := (indexedDb (started_app True))\<lparr>cache :=
          (cache (indexedDb (started_app True)))(req_url get_notes \<mapsto>
             \<lparr>key = req_url get_notes, data = JNull, cached_at = 2000\<rparr>)\<rparr>,
        requests := requests (started_app True) @ [get_notes], onLine := False\<rparr>"
    using g on
    by (simp add: cached_null_app_def intercept_def handleOnlineGet_def handle_def answering_def
          cache_event_def cacheGet_ready ready_started HTTP_STATUS_OK_def Let_def)
  have r: "ready (indexedDb cached_null_app)"
    using ready_started [of True] by (simp add: a1 ready_def)
  have off: "\<not> onLine cached_null_app"
    by (simp add: a1)
  have c: "cache (indexedDb cached_null_app) (req_url get_notes) =
      Some \<lparr>key = req_url get_notes, data = JNull, cached_at = 2000\<rparr>"
    by (simp add: a1)
  have nm: "\<not> isMutationMethod (req_method get_notes)"
    by (simp add: get_notes_def isMutationMethod_def)
  show ?thesis
    using g off nm c
    by (simp add: intercept_def handleOfflineGet_def getCached_ready r from_promise_def
          createServiceUnavailableResponse_def HTTP_STATUS_SERVICE_UNAVAILABLE_def Let_def)
qed

theorem cache_written_by_online_get_200_witness:
  "ready (indexedDb (started_app True))
   \<and> cache (indexedDb (snd (intercept get_notes (answering 200 (JArr [])) 2000 (started_app True))))
       (req_url get_notes)
     = Some \<lparr>key = ''/api/session-notes'', data = JArr [], cached_at = 2000\<rparr>
   \<and> fst (intercept get_notes (answering 200 (JArr [])) 2000 (started_app True)) =
       ([HttpResponse \<lparr>status = 200, statusText = ''OK'', body = JArr []\<rparr>], Complete)
   \<and> cannot_open (indexedDb (unopened_app True))
   \<and> cache (indexedDb (snd (intercept get_notes (answering 200 (JArr [])) 2000 (unopened_app True))))
       (req_url get_notes)
     = None"
proof -
  have g: "isGetMethod (req_method get_notes)"
    by (simp add: get_notes_def isGetMethod_def)
  have on: "onLine (started_app True)"
    by (simp add: started_app_def)
  have c: "cache (indexedDb (unopened_app True)) (req_url get_notes) = None"
    by (simp add: unopened_app_def init_def openDB_def newer_database_def dbVersion_def)
  have 1: "ready (indexedDb (started_app True))
   \<and> cache (indexedDb (snd (intercept get_notes (answering 200 (JArr [])) 2000 (started_app True))))
       (req_url get_notes)
     = Some \<lparr>key = ''/api/session-notes'', data = JArr [], cached_at = 2000\<rparr>
   \<and> fst (intercept get_notes (answering 200 (JArr [])) 2000 (started_app True)) =
       ([HttpResponse \<lparr>status = 200, statusText = ''OK'', body = JArr []\<rparr>], Complete)"
    using cache_written_by_online_get_200 [of "started_app True" get_notes
        "answering 200 (JArr [])" 2000] ready_started [of True] g on
    by (simp add: answering_def cache_write_def) (simp add: get_notes_def)
  have 2: "cache (indexedDb (snd (intercept get_notes (answering 200 (JArr [])) 2000
        (unopened_app True)))) (req_url get_notes) = None"
    using cache_written_by_online_get_200 [of "unopened_app True" get_notes
        "answering 200 (JArr [])" 2000] cannot_open_unopened [of True] c
    by simp
  from 1 2 cannot_open_unopened [of True] show ?thesis by simp
qed

text \<open>
  Claim C7 as stated fails: an online GET that succeeds with status 203 creates no cache
  entry.
\<close>

theorem online_get_203_counterexample:
  "cache (indexedDb (snd (intercept get_notes (answering 203 (JArr [])) 2000 (started_app True))))
     (req_url get_notes) = None"
proof -
  have g: "isGetMethod (req_method get_notes)"
    by (simp add: get_notes_def isGetMethod_def)
  have on: "onLine (started_app True)"
    by (simp add: started_app_def)
  have c: "cache (indexedDb (started_app True)) (req_url get_notes) = None"
    by (simp add: started_app_def init_def no_database_def openDB_def dbVersion_def upgrade_def
          Let_def initializeSampleData_def count_sessionNotes_def sampleNotes_def
          add_sessionNote_def)
  show ?thesis
    using g on c
    by (simp add: intercept_def handleOnlineGet_def handle_def answering_def cache_event_def
          HTTP_STATUS_OK_def Let_def)
qed



section \<open>The steps of the sync service on an open store\<close>

lemma queued_app_eq:
  "queued_app = (started_app True)\<lparr>indexedDb := (indexedDb (started_app True))\<lparr>
      outbox := [queued_item], outbox_keygen := 1\<rparr>\<rparr>"
proof -
  have m: "isMutationMethod (req_method put_note)"
    by (simp add: put_note_def isMutationMethod_def)
  have st: "outbox (indexedDb (started_app False)) = []
      \<and> outbox_keygen (indexedDb (started_app False)) = 0"
    by (simp add: started_app_def init_def no_database_def openDB_def dbVersion_def upgrade_def
          Let_def initializeSampleData_def count_sessionNotes_def sampleNotes_def
          add_sessionNote_def)
  have "snd (intercept put_note (answering 200 JNull) 2000 (started_app False)) =
      (started_app False)\<lparr>indexedDb := (indexedDb (started_app False))\<lparr>
         outbox := [queued_item], outbox_keygen := 1\<rparr>\<rparr>"
    using m st
    by (simp add: intercept_def handleOfflineMutation_def addToOutbox_ready ready_started
          from_promise_def Let_def started_app_def[of False, THEN arg_cong, of onLine])
       (simp add: started_app_def put_note_def queued_item_def)
  then show ?thesis
    by (simp add: queued_app_def started_app_def)
qed

lemma ready_queued: "ready (indexedDb queued_app)"
  using ready_started [of True] by (simp add: queued_app_eq ready_def)

lemma ready_outbox_update: "ready (s\<lparr>outbox := c\<rparr>) = ready s"
  by (simp add: ready_def)

lemma ready_conflicts_update: "ready (s\<lparr>syncConflicts := c, syncConflicts_keygen := k\<rparr>) = ready s"
  by (simp add: ready_def)

lemma by_timestamp_Nil: "(by_timestamp rows = []) = (rows = [])"
proof -
  have "length (by_timestamp rows) = length rows"
    by (simp add: by_timestamp_def)
  then show ?thesis
    by (metis length_0_conv)
qed

lemma processItem_replayable: "replayable item \<Longrightarrow> processItem item = Inr (request_of item)"
  by (auto simp: replayable_def processItem_def createHttpRequest_def isMutationMethod_def
        request_of_def)

lemma subscribe_next_Cons:
  "replayable x \<Longrightarrow>
     subscribe_next (x # xs) a = spawn (InFlight x xs) (a\<lparr>requests := requests a @ [request_of x]\<rparr>)"
  by (simp add: processItem_replayable)

lemma subscribe_next_fields:
  "published (subscribe_next xs a) = published a"
  "currentStatus (subscribe_next xs a) = currentStatus a"
  "indexedDb (subscribe_next xs a) = indexedDb a"
  by (cases xs; simp add: handleSyncComplete_def spawn_def split: sum.splits)+

lemma step_CallSync: "step now CallSync a = Some (sync a)"
  by (simp add: step_def)

lemma step_sync_resumed:
  assumes "ready (indexedDb a)" and "SyncAwaitOutbox \<in> set (suspended a)"
    and "by_timestamp (outbox (indexedDb a)) = x # xs"
  shows "step now (Resume SyncAwaitOutbox) a =
      Some (subscribe_next (x # xs)
        (startSync (Suc (length xs)) (unsuspend SyncAwaitOutbox a)))"
  using assms
  by (cases a)
     (simp add: step_def sync_resumed_def unsuspend_def getOutbox_ready processOutboxItems_def
        startSync_def updateStatus_def spawn_def split: sum.splits)

lemma step_sync_resumed_empty:
  assumes "ready (indexedDb a)" and "SyncAwaitOutbox \<in> set (suspended a)"
    and "outbox (indexedDb a) = []"
  shows "step now (Resume SyncAwaitOutbox) a = Some (unsuspend SyncAwaitOutbox a)"
  using assms
  by (simp add: step_def sync_resumed_def unsuspend_def getOutbox_ready by_timestamp_def)

lemma step_Respond_success:
  assumes "InFlight x xs \<in> set (suspended a)" and "hasValidItemId x"
  shows "step now (Respond x xs (Inr v)) a =
      Some (subscribe_next xs (incrementCompletedItems
        (handleSuccessfulRequest x v (unsuspend (InFlight x xs) a))))"
  using assms
  by (simp add: step_def respond_def item_succeeded_def)

lemma step_Respond_client:
  assumes "InFlight x xs \<in> set (suspended a)" and "client_error e"
  shows "step now (Respond x xs (Inl e)) a =
      Some (spawn (ConflictAdd e x xs) (unsuspend (InFlight x xs) a))"
  using assms
  by (simp add: step_def respond_def handleSyncError_def handleClientError_def client_error_def)

lemma step_Respond_server:
  assumes "InFlight x xs \<in> set (suspended a)" and "\<not> client_error e"
  shows "step now (Respond x xs (Inl e)) a =
      Some (handleServerError (unsuspend (InFlight x xs) a))"
  using assms
  by (simp add: step_def respond_def handleSyncError_def client_error_def)

lemma step_ConflictAdd:
  assumes "ready (indexedDb a)" and "ConflictAdd e x xs \<in> set (suspended a)"
    and "hasValidItemId x"
  shows "step now (Resume (ConflictAdd e x xs)) a =
      Some (spawn (ConflictRemove e x xs)
        ((unsuspend (ConflictAdd e x xs) a)\<lparr>indexedDb := (indexedDb a)\<lparr>
           syncConflicts := syncConflicts (indexedDb a) @
             [(conflict_of e x)\<lparr>timestamp := (if timestamp x \<noteq> 0 then timestamp x else now),
                 conflict_id := Some (syncConflicts_keygen (indexedDb a) + 1)\<rparr>],
           syncConflicts_keygen := syncConflicts_keygen (indexedDb a) + 1\<rparr>\<rparr>))"
  using assms
  by (simp add: step_def handleClientError_added_def unsuspend_def addToSyncConflicts_ready)
     (simp add: conflict_of_def)

lemma key_of_valid: "hasValidItemId x \<Longrightarrow> Some (key_of x) = item_id x"
  by (simp add: hasValidItemId_def key_of_def split: option.splits)

lemma step_ConflictRemove:
  assumes "ready (indexedDb a)" and "ConflictRemove e x xs \<in> set (suspended a)"
    and "hasValidItemId x"
  shows "step now (Resume (ConflictRemove e x xs)) a =
      Some (handleClientError_finish xs
        ((unsuspend (ConflictRemove e x xs) a)\<lparr>indexedDb := (indexedDb a)\<lparr>
           outbox := filter (\<lambda>r. item_id r \<noteq> item_id x) (outbox (indexedDb a))\<rparr>\<rparr>))"
  using assms
  by (simp add: step_def handleClientError_removed_def unsuspend_def removeFromOutbox_ready
        key_of_valid)

lemma step_RemoveOnSuccess:
  assumes "ready (indexedDb a)" and "RemoveOnSuccess x \<in> set (suspended a)"
    and "hasValidItemId x"
  shows "step now (Resume (RemoveOnSuccess x)) a =
      Some ((unsuspend (RemoveOnSuccess x) a)\<lparr>indexedDb := (indexedDb a)\<lparr>
           outbox := filter (\<lambda>r. item_id r \<noteq> item_id x) (outbox (indexedDb a))\<rparr>\<rparr>)"
  using assms
  by (simp add: step_def handleSuccessfulRequest_resumed_def unsuspend_def removeFromOutbox_ready
        getOutbox_ready ready_outbox_update key_of_valid)

lemma step_Complete:
  assumes "ready (indexedDb a)" and "CompleteAwaitOutbox \<in> set (suspended a)"
  shows "step now (Resume CompleteAwaitOutbox) a =
      Some (updateStatus idle (unsuspend CompleteAwaitOutbox a))"
  using assms
  by (simp add: step_def handleSyncComplete_resumed_def unsuspend_def getOutbox_ready idle_def)

subsection \<open>The invariant of a drain\<close>

lemma mains_append: "mains (ts @ [t]) = mains ts @ (if is_removal t then [] else [t])"
  by (simp add: mains_def)

lemma mains_append_removal: "mains (ts @ (if c then [RemoveOnSuccess x] else [])) = mains ts"
  by (simp add: mains_def)

lemma mains_remove1_removal: "is_removal t \<Longrightarrow> mains (remove1 t ts) = mains ts"
  by (induction ts) (auto simp: mains_def)

lemma mains_remove1_main: "\<not> is_removal t \<Longrightarrow> mains (remove1 t ts) = remove1 t (mains ts)"
  by (induction ts) (auto simp: mains_def)

lemma mains_member: "t \<in> set ts \<Longrightarrow> \<not> is_removal t \<Longrightarrow> t \<in> set (mains ts)"
  by (simp add: mains_def)

lemma removals_remove1:
  "list_all P ts \<Longrightarrow> list_all P (remove1 t ts)"
  by (induction ts) auto

lemma spawn_fields:
  "indexedDb (spawn t a) = indexedDb a" "requests (spawn t a) = requests a"
  "suspended (spawn t a) = suspended a @ [t]" "currentStatus (spawn t a) = currentStatus a"
  "published (spawn t a) = published a" "onLine (spawn t a) = onLine a"
  by (simp_all add: spawn_def)

lemma unsuspend_fields:
  "indexedDb (unsuspend t a) = indexedDb a" "requests (unsuspend t a) = requests a"
  "suspended (unsuspend t a) = remove1 t (suspended a)"
  "currentStatus (unsuspend t a) = currentStatus a"
  "published (unsuspend t a) = published a" "onLine (unsuspend t a) = onLine a"
  by (simp_all add: unsuspend_def)

lemma updateStatus_fields:
  "indexedDb (updateStatus st a) = indexedDb a" "requests (updateStatus st a) = requests a"
  "suspended (updateStatus st a) = suspended a" "currentStatus (updateStatus st a) = st"
  "published (updateStatus st a) = published a @ [st]" "onLine (updateStatus st a) = onLine a"
  by (simp_all add: updateStatus_def)

lemma incrementCompletedItems_fields:
  "indexedDb (incrementCompletedItems a) = indexedDb a"
  "requests (incrementCompletedItems a) = requests a"
  "suspended (incrementCompletedItems a) = suspended a"
  by (simp_all add: incrementCompletedItems_def updateStatus_fields)

lemma handleSuccessfulRequest_fields:
  "indexedDb (handleSuccessfulRequest x v a) = indexedDb a"
  "requests (handleSuccessfulRequest x v a) = requests a"
  "currentStatus (handleSuccessfulRequest x v a) = currentStatus a"
  "published (handleSuccessfulRequest x v a) = published a"
  "suspended (handleSuccessfulRequest x v a) =
     suspended a @ (if v \<noteq> JNull \<and> hasValidItemId x then [RemoveOnSuccess x] else [])"
  by (simp_all add: handleSuccessfulRequest_def spawn_fields)

lemma handleServerError_fields:
  "indexedDb (handleServerError a) = indexedDb a"
  "requests (handleServerError a) = requests a"
  "suspended (handleServerError a) = suspended a"
  by (simp_all add: handleServerError_def updateStatus_fields)

lemma drop_Suc_Nil_length: "m < length xs \<Longrightarrow> drop (Suc m) xs = [] \<Longrightarrow> Suc m = length xs"
  by simp

lemma drop_Suc_Cons_nth:
  assumes "drop (Suc m) xs = x # r"
  shows "Suc m < length xs \<and> x = xs ! Suc m \<and> r = drop (Suc (Suc m)) xs"
proof -
  have l: "Suc m < length xs"
    using assms by (metis drop_all list.distinct(1) not_le_imp_less)
  then have "drop (Suc m) xs = xs ! Suc m # drop (Suc (Suc m)) xs"
    by (simp add: Cons_nth_drop_Suc)
  with assms l show ?thesis by simp
qed

lemma drain_advance:
  assumes rd: "ready (indexedDb b)" and m: "m < length xs" and repl: "list_all replayable xs"
    and rem: "list_all (\<lambda>t. is_removal t \<longrightarrow> (\<exists>y. t = RemoveOnSuccess y \<and> y \<in> set (take (Suc m) xs)))
          (suspended b)"
    and sub: "set (drop (Suc m) xs) \<subseteq> set (outbox (indexedDb b))"
    and req: "requests b = R0 @ map request_of (take (Suc m) xs)"
    and mn: "mains (suspended b) = []"
  shows "drain_at h xs R0 (Suc m) (subscribe_next (drop (Suc m) xs) b)"
proof (cases "drop (Suc m) xs")
  case Nil
  with m have len: "Suc m = length xs" by simp
  have "subscribe_next (drop (Suc m) xs) b = spawn CompleteAwaitOutbox b"
    by (simp add: Nil handleSyncComplete_def)
  then show ?thesis
    using rd rem req mn len
    by (simp add: drain_at_def spawn_fields mains_append)
next
  case (Cons x r)
  from drop_Suc_Cons_nth [OF Cons]
  have l: "Suc m < length xs" and x: "x = xs ! Suc m" and r: "r = drop (Suc (Suc m)) xs"
    by simp_all
  have "x \<in> set xs" using l x by simp
  with repl have rx: "replayable x" by (simp add: list_all_iff)
  have nxt: "subscribe_next (drop (Suc m) xs) b =
      spawn (InFlight x r) (b\<lparr>requests := requests b @ [request_of x]\<rparr>)"
    unfolding Cons by (rule subscribe_next_Cons [OF rx])
  have tk: "take (Suc (Suc m)) xs = take (Suc m) xs @ [x]"
    using l x by (simp add: take_Suc_conv_app_nth)
  show ?thesis
    unfolding nxt drain_at_def
    using rd l rem sub req mn x r tk
    by (simp add: spawn_fields mains_append)
qed

lemma distinct_take_drop:
  assumes "distinct (map f xs)" and "y \<in> set (take m xs)" and "r \<in> set (drop m xs)"
  shows "f y \<noteq> f r"
proof -
  have "distinct (map f (take m xs) @ map f (drop m xs))"
    using assms(1) by (metis append_take_drop_id map_append)
  then have "set (map f (take m xs)) \<inter> set (map f (drop m xs)) = {}"
    by simp
  with assms(2,3) show ?thesis by auto
qed

lemma nth_in_take_Suc: "m < length xs \<Longrightarrow> xs ! m \<in> set (take (Suc m) xs)"
  by (simp add: take_Suc_conv_app_nth)

lemma removals_mono:
  assumes "list_all (\<lambda>t. is_removal t \<longrightarrow> (\<exists>y. t = RemoveOnSuccess y \<and> y \<in> set (take m xs))) ts"
  shows "list_all (\<lambda>t. is_removal t \<longrightarrow> (\<exists>y. t = RemoveOnSuccess y \<and> y \<in> set (take (Suc m) xs))) ts"
proof -
  have "set (take m xs) \<subseteq> set (take (Suc m) xs)"
    by (rule set_take_subset_set_take) simp
  with assms show ?thesis
    by (auto simp: list_all_iff)
qed

lemma replayable_valid: "replayable x \<Longrightarrow> hasValidItemId x"
  by (simp add: replayable_def)

lemma drain_at_main:
  assumes D: "drain_at h xs R0 m a" and t: "t \<in> set (suspended a)" and nr: "\<not> is_removal t"
  shows "mains (suspended a) = [t]
    \<and> ((m < length xs \<and> current t = Some (xs ! m, drop (Suc m) xs))
       \<or> (m = length xs \<and> t = CompleteAwaitOutbox))"
proof -
  have "t \<in> set (mains (suspended a))"
    using t nr by (rule mains_member)
  with D show ?thesis
    by (auto simp: drain_at_def)
qed

lemma drain_at_removal:
  assumes D: "drain_at h xs R0 m a" and dist: "distinct (map item_id xs)"
    and repl: "list_all replayable xs" and t: "RemoveOnSuccess y \<in> set (suspended a)"
  shows "drain_at h xs R0 m
      ((unsuspend (RemoveOnSuccess y) a)\<lparr>indexedDb := (indexedDb a)\<lparr>
           outbox := filter (\<lambda>r. item_id r \<noteq> item_id y) (outbox (indexedDb a))\<rparr>\<rparr>)"
proof -
  have y: "y \<in> set (take m xs)"
    using D t by (auto simp: drain_at_def list_all_iff)
  have sub: "set (drop m xs) \<subseteq> set (filter (\<lambda>r. item_id r \<noteq> item_id y) (outbox (indexedDb a)))"
  proof
    fix r assume r: "r \<in> set (drop m xs)"
    then have "r \<in> set (outbox (indexedDb a))"
      using D by (auto simp: drain_at_def)
    moreover have "item_id r \<noteq> item_id y"
      using distinct_take_drop [OF dist y r] by simp
    ultimately show "r \<in> set (filter (\<lambda>r. item_id r \<noteq> item_id y) (outbox (indexedDb a)))"
      by simp
  qed
  show ?thesis
    using D sub
    by (simp add: drain_at_def unsuspend_fields ready_outbox_update removals_remove1
          mains_remove1_removal)
qed

lemma drain_at_conflict_add:
  assumes D: "drain_at h xs R0 m a" and t: "ConflictAdd e x r \<in> set (suspended a)"
  shows "drain_at h xs R0 m
      (spawn (ConflictRemove e x r)
        ((unsuspend (ConflictAdd e x r) a)\<lparr>indexedDb := (indexedDb a)\<lparr>
           syncConflicts := cs, syncConflicts_keygen := k\<rparr>\<rparr>))"
proof -
  from drain_at_main [OF D t]
  have mn: "mains (suspended a) = [ConflictAdd e x r]"
    and cur: "m < length xs \<and> x = xs ! m \<and> r = drop (Suc m) xs"
    by auto
  show ?thesis
    using D mn cur
    by (simp add: drain_at_def spawn_fields unsuspend_fields ready_conflicts_update
          removals_remove1 mains_append mains_remove1_main)
qed

lemma drain_at_client_error:
  assumes D: "drain_at h xs R0 m a" and t: "InFlight x r \<in> set (suspended a)"
  shows "drain_at h xs R0 m (spawn (ConflictAdd e x r) (unsuspend (InFlight x r) a))"
proof -
  from drain_at_main [OF D t]
  have mn: "mains (suspended a) = [InFlight x r]"
    and cur: "m < length xs \<and> x = xs ! m \<and> r = drop (Suc m) xs"
    by auto
  show ?thesis
    using D mn cur
    by (simp add: drain_at_def spawn_fields unsuspend_fields removals_remove1 mains_append
          mains_remove1_main)
qed

lemma drain_at_halt:
  assumes D: "drain_at True xs R0 m a" and t: "InFlight x r \<in> set (suspended a)"
  shows "drain_at True xs R0 m (handleServerError (unsuspend (InFlight x r) a))"
proof -
  from drain_at_main [OF D t]
  have mn: "mains (suspended a) = [InFlight x r]"
    by auto
  show ?thesis
    using D mn
    by (simp add: drain_at_def handleServerError_fields unsuspend_fields removals_remove1
          mains_remove1_main)
qed

lemma drain_at_complete:
  assumes D: "drain_at h xs R0 m a" and t: "CompleteAwaitOutbox \<in> set (suspended a)"
  shows "drain_at h xs R0 m (updateStatus st (unsuspend CompleteAwaitOutbox a))"
proof -
  from drain_at_main [OF D t]
  have mn: "mains (suspended a) = [CompleteAwaitOutbox]" and m: "m = length xs"
    by auto
  show ?thesis
    using D mn m
    by (simp add: drain_at_def updateStatus_fields unsuspend_fields removals_remove1
          mains_remove1_main)
qed

lemma drain_at_success:
  assumes D: "drain_at h xs R0 m a" and repl: "list_all replayable xs"
    and t: "InFlight x r \<in> set (suspended a)"
  shows "drain_at h xs R0 (Suc m)
      (subscribe_next r (incrementCompletedItems
        (handleSuccessfulRequest x v (unsuspend (InFlight x r) a))))"
proof -
  from drain_at_main [OF D t]
  have mn: "mains (suspended a) = [InFlight x r]"
    and m: "m < length xs" and x: "x = xs ! m" and r: "r = drop (Suc m) xs"
    by auto
  let ?b = "incrementCompletedItems (handleSuccessfulRequest x v (unsuspend (InFlight x r) a))"
  have rem: "list_all (\<lambda>t. is_removal t \<longrightarrow> (\<exists>y. t = RemoveOnSuccess y \<and> y \<in> set (take (Suc m) xs)))
      (suspended a)"
    using D by (intro removals_mono) (simp add: drain_at_def)
  have sub: "set (drop (Suc m) xs) \<subseteq> set (outbox (indexedDb a))"
  proof -
    have "set (drop (Suc m) xs) \<subseteq> set (drop m xs)"
      by (rule set_drop_subset_set_drop) simp
    with D show ?thesis by (auto simp: drain_at_def)
  qed
  have "drain_at h xs R0 (Suc m) (subscribe_next (drop (Suc m) xs) ?b)"
  proof (rule drain_advance [OF _ m repl])
    show "ready (indexedDb ?b)"
      using D
      by (simp add: drain_at_def incrementCompletedItems_fields handleSuccessfulRequest_fields
            unsuspend_fields)
    show "list_all (\<lambda>t. is_removal t \<longrightarrow> (\<exists>y. t = RemoveOnSuccess y \<and> y \<in> set (take (Suc m) xs)))
        (suspended ?b)"
      using rem nth_in_take_Suc [OF m] x
      by (simp add: incrementCompletedItems_fields handleSuccessfulRequest_fields unsuspend_fields
            removals_remove1)
    show "set (drop (Suc m) xs) \<subseteq> set (outbox (indexedDb ?b))"
      using sub
      by (simp add: incrementCompletedItems_fields handleSuccessfulRequest_fields
            unsuspend_fields)
    show "requests ?b = R0 @ map request_of (take (Suc m) xs)"
      using D
      by (simp add: drain_at_def incrementCompletedItems_fields handleSuccessfulRequest_fields
            unsuspend_fields)
    show "mains (suspended ?b) = []"
      using mn
      by (simp add: incrementCompletedItems_fields handleSuccessfulRequest_fields
            unsuspend_fields mains_append_removal mains_remove1_main)
  qed
  then show ?thesis by (simp add: r)
qed

lemma drain_at_conflict_remove:
  assumes D: "drain_at h xs R0 m a" and dist: "distinct (map item_id xs)"
    and repl: "list_all replayable xs" and t: "ConflictRemove e x r \<in> set (suspended a)"
  shows "drain_at h xs R0 (Suc m)
      (handleClientError_finish r
        ((unsuspend (ConflictRemove e x r) a)\<lparr>indexedDb := (indexedDb a)\<lparr>
           outbox := filter (\<lambda>r. item_id r \<noteq> item_id x) (outbox (indexedDb a))\<rparr>\<rparr>))"
proof -
  from drain_at_main [OF D t]
  have mn: "mains (suspended a) = [ConflictRemove e x r]"
    and m: "m < length xs" and x: "x = xs ! m" and r: "r = drop (Suc m) xs"
    by auto
  let ?c = "(unsuspend (ConflictRemove e x r) a)\<lparr>indexedDb := (indexedDb a)\<lparr>
           outbox := filter (\<lambda>r. item_id r \<noteq> item_id x) (outbox (indexedDb a))\<rparr>\<rparr>"
  let ?b = "updateStatus ((currentStatus ?c)\<lparr>completedItems := completedItems (currentStatus ?c) + 1,
          failedItems := failedItems (currentStatus ?c) + 1\<rparr>) ?c"
  have rem: "list_all (\<lambda>t. is_removal t \<longrightarrow> (\<exists>y. t = RemoveOnSuccess y \<and> y \<in> set (take (Suc m) xs)))
      (suspended a)"
    using D by (intro removals_mono) (simp add: drain_at_def)
  have sub: "set (drop (Suc m) xs) \<subseteq>
      set (filter (\<lambda>r. item_id r \<noteq> item_id x) (outbox (indexedDb a)))"
  proof
    fix y assume y: "y \<in> set (drop (Suc m) xs)"
    have "set (drop (Suc m) xs) \<subseteq> set (drop m xs)"
      by (rule set_drop_subset_set_drop) simp
    with y D have "y \<in> set (outbox (indexedDb a))"
      by (auto simp: drain_at_def)
    moreover have "item_id y \<noteq> item_id x"
      using distinct_take_drop [OF dist nth_in_take_Suc [OF m] y] x by simp
    ultimately show "y \<in> set (filter (\<lambda>r. item_id r \<noteq> item_id x) (outbox (indexedDb a)))"
      by simp
  qed
  have "drain_at h xs R0 (Suc m) (subscribe_next (drop (Suc m) xs) ?b)"
  proof (rule drain_advance [OF _ m repl])
    show "ready (indexedDb ?b)"
      using D by (simp add: drain_at_def updateStatus_fields unsuspend_fields ready_outbox_update)
    show "list_all (\<lambda>t. is_removal t \<longrightarrow> (\<exists>y. t = RemoveOnSuccess y \<and> y \<in> set (take (Suc m) xs)))
        (suspended ?b)"
      using rem by (simp add: updateStatus_fields unsuspend_fields removals_remove1)
    show "set (drop (Suc m) xs) \<subseteq> set (outbox (indexedDb ?b))"
      using sub by (simp add: updateStatus_fields unsuspend_fields)
    show "requests ?b = R0 @ map request_of (take (Suc m) xs)"
      using D by (simp add: drain_at_def updateStatus_fields unsuspend_fields)
    show "mains (suspended ?b) = []"
      using mn by (simp add: updateStatus_fields unsuspend_fields mains_remove1_main)
  qed
  then show ?thesis by (simp add: r handleClientError_finish_def)
qed

lemma step_Resume_cases:
  assumes "step now (Resume t) a = Some a'"
  shows "t \<in> set (suspended a) \<and> resume now t (unsuspend t a) = Some a'"
  using assms by (simp add: step_def split: if_splits)

lemma step_Respond_cases:
  assumes "step now (Respond x r res) a = Some a'"
  shows "InFlight x r \<in> set (suspended a)"
  using assms by (simp add: step_def split: if_splits)

lemma drain_at_step:
  assumes D: "drain_at h xs R0 m a" and dist: "distinct (map item_id xs)"
    and repl: "list_all replayable xs"
    and st: "step now ev a = Some a'" and int: "internal ev" and hf: "h \<or> \<not> fatal ev"
  shows "drain_at h xs R0 m a' \<or> drain_at h xs R0 (Suc m) a'"
proof (cases ev)
  case CallSync
  with int show ?thesis by simp
next
  case (Resume t)
  from step_Resume_cases [OF st [unfolded Resume]]
  have t: "t \<in> set (suspended a)" and res: "resume now t (unsuspend t a) = Some a'"
    by simp_all
  have rd: "ready (indexedDb a)" using D by (simp add: drain_at_def)
  show ?thesis
  proof (cases t)
    case SyncAwaitOutbox
    with drain_at_main [OF D t] show ?thesis by simp
  next
    case (InFlight x r)
    with res show ?thesis by simp
  next
    case (RemoveOnSuccess y)
    have "y \<in> set (take m xs)"
      using D t RemoveOnSuccess by (auto simp: drain_at_def list_all_iff)
    then have "y \<in> set xs" by (rule in_set_takeD)
    with repl have v: "hasValidItemId y"
      by (simp add: list_all_iff replayable_def)
    from step_RemoveOnSuccess [OF rd t [unfolded RemoveOnSuccess] v, of now] st
    have "a' = (unsuspend (RemoveOnSuccess y) a)\<lparr>indexedDb := (indexedDb a)\<lparr>
           outbox := filter (\<lambda>r. item_id r \<noteq> item_id y) (outbox (indexedDb a))\<rparr>\<rparr>"
      by (simp add: Resume RemoveOnSuccess)
    with drain_at_removal [OF D dist repl t [unfolded RemoveOnSuccess]] show ?thesis
      by simp
  next
    case (ConflictAdd e x r)
    from drain_at_main [OF D t] ConflictAdd
    have "m < length xs" and "x = xs ! m" by auto
    with repl have v: "hasValidItemId x"
      by (simp add: list_all_iff replayable_def)
    from step_ConflictAdd [OF rd t [unfolded ConflictAdd] v, of now] st
    have "a' = spawn (ConflictRemove e x r)
        ((unsuspend (ConflictAdd e x r) a)\<lparr>indexedDb := (indexedDb a)\<lparr>
           syncConflicts := syncConflicts (indexedDb a) @
             [(conflict_of e x)\<lparr>timestamp := (if timestamp x \<noteq> 0 then timestamp x else now),
                 conflict_id := Some (syncConflicts_keygen (indexedDb a) + 1)\<rparr>],
           syncConflicts_keygen := syncConflicts_keygen (indexedDb a) + 1\<rparr>\<rparr>)"
      by (simp add: Resume ConflictAdd)
    with drain_at_conflict_add [OF D t [unfolded ConflictAdd]] show ?thesis
      by simp
  next
    case (ConflictRemove e x r)
    from drain_at_main [OF D t] ConflictRemove
    have "m < length xs" and "x = xs ! m" by auto
    with repl have v: "hasValidItemId x"
      by (simp add: list_all_iff replayable_def)
    from step_ConflictRemove [OF rd t [unfolded ConflictRemove] v, of now] st
    have "a' = handleClientError_finish r
        ((unsuspend (ConflictRemove e x r) a)\<lparr>indexedDb := (indexedDb a)\<lparr>
           outbox := filter (\<lambda>r. item_id r \<noteq> item_id x) (outbox (indexedDb a))\<rparr>\<rparr>)"
      by (simp add: Resume ConflictRemove)
    with drain_at_conflict_remove [OF D dist repl t [unfolded ConflictRemove]] show ?thesis
      by simp
  next
    case CompleteAwaitOutbox
    from step_Complete [OF rd t [unfolded CompleteAwaitOutbox], of now] st
    have "a' = updateStatus idle (unsuspend CompleteAwaitOutbox a)"
      by (simp add: Resume CompleteAwaitOutbox)
    with drain_at_complete [OF D t [unfolded CompleteAwaitOutbox]] show ?thesis
      by simp
  qed
next
  case (Respond x r res)
  from step_Respond_cases [OF st [unfolded Respond]]
  have t: "InFlight x r \<in> set (suspended a)" .
  from drain_at_main [OF D t]
  have "m < length xs" and "x = xs ! m" by auto
  with repl have v: "hasValidItemId x"
    by (simp add: list_all_iff replayable_def)
  show ?thesis
  proof (cases res)
    case (Inr response)
    from step_Respond_success [OF t v, of now response] st
    have "a' = subscribe_next r (incrementCompletedItems
        (handleSuccessfulRequest x response (unsuspend (InFlight x r) a)))"
      by (simp add: Respond Inr)
    with drain_at_success [OF D repl t, of response] show ?thesis by simp
  next
    case (Inl e)
    show ?thesis
    proof (cases "client_error e")
      case True
      from step_Respond_client [OF t True, of now] st
      have "a' = spawn (ConflictAdd e x r) (unsuspend (InFlight x r) a)"
        by (simp add: Respond Inl)
      with drain_at_client_error [OF D t] show ?thesis by simp
    next
      case False
      with hf have h: "h" by (simp add: Respond Inl)
      from step_Respond_server [OF t False, of now] st
      have "a' = handleServerError (unsuspend (InFlight x r) a)"
        by (simp add: Respond Inl)
      with drain_at_halt [OF D [unfolded h [THEN eqTrueI]] t] h show ?thesis by simp
    qed
  qed
qed

lemma drain_at_run:
  assumes "drain_at h xs R0 m a" and "distinct (map item_id xs)" and "list_all replayable xs"
    and "run es a = Some a'" and "list_all (\<lambda>(t, ev). internal ev \<and> (h \<or> \<not> fatal ev)) es"
  shows "\<exists>m'. m \<le> m' \<and> drain_at h xs R0 m' a'"
  using assms
proof (induction es arbitrary: a m)
  case Nil
  then show ?case by auto
next
  case (Cons tev es)
  obtain now ev where tev: "tev = (now, ev)" by (cases tev)
  from Cons.prems(4) obtain b where st: "step now ev a = Some b" and rn: "run es b = Some a'"
    by (auto simp: tev split: option.splits)
  from Cons.prems(5) have ev: "internal ev" "h \<or> \<not> fatal ev"
    and es: "list_all (\<lambda>(t, ev). internal ev \<and> (h \<or> \<not> fatal ev)) es"
    by (simp_all add: tev)
  from drain_at_step [OF Cons.prems(1) Cons.prems(2) Cons.prems(3) st ev]
  show ?case
  proof
    assume "drain_at h xs R0 m b"
    from Cons.IH [OF this Cons.prems(2) Cons.prems(3) rn es] show ?thesis .
  next
    assume "drain_at h xs R0 (Suc m) b"
    from Cons.IH [OF this Cons.prems(2) Cons.prems(3) rn es]
    obtain m' where "Suc m \<le> m'" and "drain_at h xs R0 m' a'" by auto
    then show ?thesis by (intro exI [of _ m']) simp
  qed
qed


subsection \<open>The queue and its snapshot\<close>

lemma set_by_timestamp: "set (by_timestamp rows) = set rows"
  by (simp add: by_timestamp_def)

lemma length_by_timestamp: "length (by_timestamp rows) = length rows"
  by (simp add: by_timestamp_def)

lemma distinct_map_by_timestamp:
  "distinct (map g (by_timestamp rows)) = distinct (map g rows)"
proof -
  have "distinct (map g (by_timestamp rows)) =
      (card (g ` set rows) = length rows)"
    using distinct_card [of "map g (by_timestamp rows)"] card_distinct [of "map g (by_timestamp rows)"]
    by (auto simp: set_by_timestamp length_by_timestamp)
  moreover have "distinct (map g rows) = (card (g ` set rows) = length rows)"
    using distinct_card [of "map g rows"] card_distinct [of "map g rows"]
    by auto
  ultimately show ?thesis by simp
qed

lemma replayable_item_id: "replayable r \<Longrightarrow> item_id r = Some (key_of r)"
  by (simp add: replayable_def hasValidItemId_def key_of_def split: option.splits)

lemma sorted_wrt_less_distinct: "sorted_wrt (<) (ks :: nat list) \<Longrightarrow> distinct ks"
  by (induction ks) auto

lemma queue_ok_distinct:
  assumes "queue_ok s"
  shows "distinct (map item_id (outbox s))"
proof -
  have "sorted_wrt (<) (map key_of (outbox s))"
    using assms by (simp add: queue_ok_def)
  then have d: "distinct (map key_of (outbox s))"
    by (rule sorted_wrt_less_distinct)
  have eq: "map item_id (outbox s) = map Some (map key_of (outbox s))"
    using assms by (simp add: queue_ok_def list_all_iff replayable_item_id)
  have "distinct (map Some (map key_of (outbox s)))"
    using d by (subst distinct_map) simp
  then show ?thesis
    unfolding eq .
qed

lemma in_order_by_timestamp:
  assumes "sorted (map timestamp rows)" and "sorted_wrt (<) (map key_of rows)"
  shows "by_timestamp rows = rows"
proof -
  have "sorted (map (\<lambda>r. (timestamp r, key_of r)) rows)"
    using assms
    by (induction rows) (auto simp: less_eq_prod_def)
  then show ?thesis
    unfolding by_timestamp_def by (rule sort_key_id_if_sorted)
qed

lemma queue_ok_addToOutbox:
  assumes "ready s" and "queue_ok s" and "isMutationMethod (http_method item)"
  shows "queue_ok (snd (addToOutbox item now s))"
proof -
  have "\<forall>k \<in> set (map key_of (outbox s)). k < Suc (outbox_keygen s)"
    using assms(2) by (auto simp: queue_ok_def list_all_iff)
  then have "sorted_wrt (<) (map key_of (outbox s) @ [Suc (outbox_keygen s)])"
    using assms(2) by (simp add: queue_ok_def sorted_wrt_append)
  then show ?thesis
    using assms
    by (auto simp: addToOutbox_ready queue_ok_def replayable_def hasValidItemId_def key_of_def
          list_all_iff)
qed

lemma queue_ok_started: "queue_ok (indexedDb (started_app on))"
  by (simp add: started_app_def init_def no_database_def openDB_def dbVersion_def upgrade_def
        Let_def initializeSampleData_def count_sessionNotes_def sampleNotes_def
        add_sessionNote_def queue_ok_def)

subsection \<open>A drain from its start\<close>

lemma sync_starts:
  assumes "\<not> shouldSkipSync a" and "suspended a = []"
  shows "step now CallSync a = Some (spawn SyncAwaitOutbox a)"
    and "unsuspend SyncAwaitOutbox (spawn SyncAwaitOutbox a) = a"
  using assms by (simp_all add: step_def sync_def unsuspend_def spawn_def)

lemma drain_starts:
  assumes rd: "ready (indexedDb a)" and idle: "\<not> shouldSkipSync a" and pool: "suspended a = []"
    and q: "queue_ok (indexedDb a)" and ne: "outbox (indexedDb a) \<noteq> []"
  shows "\<exists>b. run [(t0, CallSync), (t1, Resume SyncAwaitOutbox)] a = Some b
    \<and> drain_at h (by_timestamp (outbox (indexedDb a))) (requests a) 0 b
    \<and> published b = published a @ [\<lparr>isSyncing = True,
          totalItems = length (outbox (indexedDb a)), completedItems = 0, failedItems = 0\<rparr>]"
proof -
  let ?xs = "by_timestamp (outbox (indexedDb a))"
  obtain x r where xs: "?xs = x # r"
    using ne by (cases ?xs) (simp_all add: by_timestamp_Nil)
  have "x \<in> set (outbox (indexedDb a))"
    using xs set_by_timestamp [of "outbox (indexedDb a)"] by auto
  with q have rx: "replayable x"
    by (simp add: queue_ok_def list_all_iff)
  let ?a1 = "spawn SyncAwaitOutbox a"
  let ?b = "subscribe_next (x # r) (startSync (Suc (length r)) a)"
  have s2: "step t1 (Resume SyncAwaitOutbox) ?a1 = Some ?b"
    using step_sync_resumed [of ?a1 x r t1] rd xs sync_starts(2) [OF idle pool]
    by (simp add: spawn_fields)
  have rn: "run [(t0, CallSync), (t1, Resume SyncAwaitOutbox)] a = Some ?b"
    by (simp add: sync_starts(1) [OF idle pool] s2)
  have b: "?b = spawn (InFlight x r) ((startSync (Suc (length r)) a)\<lparr>requests :=
      requests a @ [request_of x]\<rparr>)"
    by (simp only: subscribe_next_Cons [OF rx]) (simp add: startSync_def updateStatus_fields)
  have len: "Suc (length r) = length (outbox (indexedDb a))"
    using xs length_by_timestamp [of "outbox (indexedDb a)"] by simp
  have d: "drain_at h ?xs (requests a) 0 ?b"
    unfolding b using rd pool set_by_timestamp [of "outbox (indexedDb a)"]
    by (simp add: drain_at_def xs spawn_fields startSync_def updateStatus_fields mains_def)
  have p: "published ?b = published a @ [\<lparr>isSyncing = True,
          totalItems = length (outbox (indexedDb a)), completedItems = 0, failedItems = 0\<rparr>]"
    unfolding b by (simp add: spawn_fields startSync_def updateStatus_fields len)
  from rn d p show ?thesis by blast
qed

subsection \<open>After a drain has stopped\<close>

lemma quiet_run:
  assumes "ready (indexedDb b)"
    and "list_all (\<lambda>t. \<exists>y. t = RemoveOnSuccess y \<and> hasValidItemId y) (suspended b)"
    and "run es b = Some c" and "list_all (\<lambda>(t, ev). internal ev) es"
  shows "requests c = requests b \<and> syncConflicts (indexedDb c) = syncConflicts (indexedDb b)
    \<and> currentStatus c = currentStatus b \<and> published c = published b
    \<and> (\<forall>r \<in> set (outbox (indexedDb b)).
          (\<forall>y. RemoveOnSuccess y \<in> set (suspended b) \<longrightarrow> item_id y \<noteq> item_id r)
          \<longrightarrow> r \<in> set (outbox (indexedDb c)))"
  using assms
proof (induction es arbitrary: b)
  case Nil
  then show ?case by simp
next
  case (Cons tev es)
  obtain now ev where tev: "tev = (now, ev)" by (cases tev)
  from Cons.prems(3) obtain b' where st: "step now ev b = Some b'" and rn: "run es b' = Some c"
    by (auto simp: tev split: option.splits)
  from Cons.prems(4) have int: "internal ev" and es: "list_all (\<lambda>(t, ev). internal ev) es"
    by (simp_all add: tev)
  have "\<exists>y. ev = Resume (RemoveOnSuccess y) \<and> RemoveOnSuccess y \<in> set (suspended b)
      \<and> hasValidItemId y"
  proof (cases ev)
    case CallSync
    with int show ?thesis by simp
  next
    case (Resume t)
    with st have "t \<in> set (suspended b)"
      by (simp add: step_def split: if_splits)
    with Cons.prems(2) Resume show ?thesis
      by (auto simp: list_all_iff)
  next
    case (Respond x r res)
    with st have "InFlight x r \<in> set (suspended b)"
      by (simp add: step_def split: if_splits)
    with Cons.prems(2) show ?thesis
      by (auto simp: list_all_iff)
  qed
  then obtain y where ev: "ev = Resume (RemoveOnSuccess y)"
    and y: "RemoveOnSuccess y \<in> set (suspended b)" and v: "hasValidItemId y"
    by blast
  from step_RemoveOnSuccess [OF Cons.prems(1) y v, of now] st
  have b': "b' = (unsuspend (RemoveOnSuccess y) b)\<lparr>indexedDb := (indexedDb b)\<lparr>
      outbox := filter (\<lambda>r. item_id r \<noteq> item_id y) (outbox (indexedDb b))\<rparr>\<rparr>"
    by (simp add: ev)
  have rd': "ready (indexedDb b')"
    using Cons.prems(1) by (simp add: b' ready_outbox_update)
  have pool': "list_all (\<lambda>t. \<exists>y. t = RemoveOnSuccess y \<and> hasValidItemId y) (suspended b')"
    using Cons.prems(2) by (simp add: b' unsuspend_fields removals_remove1)
  note IH = Cons.IH [OF rd' pool' rn es]
  have sub: "set (suspended b') \<subseteq> set (suspended b)"
    using set_remove1_subset [of "RemoveOnSuccess y" "suspended b"]
    by (simp add: b' unsuspend_fields)
  show ?case
  proof (intro conjI ballI impI)
    fix r
    assume r: "r \<in> set (outbox (indexedDb b))"
      and other: "\<forall>y. RemoveOnSuccess y \<in> set (suspended b) \<longrightarrow> item_id y \<noteq> item_id r"
    from other y have "item_id r \<noteq> item_id y" by auto
    with r have "r \<in> set (outbox (indexedDb b'))"
      by (simp add: b')
    moreover have "\<forall>y. RemoveOnSuccess y \<in> set (suspended b') \<longrightarrow> item_id y \<noteq> item_id r"
      using other sub by auto
    ultimately show "r \<in> set (outbox (indexedDb c))"
      using IH by blast
  qed (use IH in \<open>simp_all add: b' unsuspend_fields\<close>)
qed

section \<open>Properties of a drain\<close>


lemma run_append:
  "run (es @ es') a = (case run es a of None \<Rightarrow> None | Some b \<Rightarrow> run es' b)"
  by (induction es arbitrary: a) (auto split: option.splits)

lemma idle_run:
  assumes "suspended a = []" and "list_all (\<lambda>(t, ev). internal ev) es" and "run es a = Some b"
  shows "b = a"
proof (cases es)
  case Nil
  with assms show ?thesis by simp
next
  case (Cons tev es')
  obtain now ev where tev: "tev = (now, ev)" by (cases tev)
  from assms(2) have "internal ev" by (simp add: Cons tev)
  then have "step now ev a = None"
    using assms(1) by (cases ev) (simp_all add: step_def)
  with assms(3) show ?thesis by (simp add: Cons tev)
qed

lemma sync_on_empty_outbox:
  assumes rd: "ready (indexedDb a)" and idle: "\<not> shouldSkipSync a" and pool: "suspended a = []"
    and em: "outbox (indexedDb a) = []"
  shows "run [(t0, CallSync), (t1, Resume SyncAwaitOutbox)] a = Some a"
proof -
  have "step t1 (Resume SyncAwaitOutbox) (spawn SyncAwaitOutbox a) = Some a"
    using step_sync_resumed_empty [of "spawn SyncAwaitOutbox a" t1] rd em
      sync_starts(2) [OF idle pool]
    by (simp add: spawn_fields)
  then show ?thesis
    by (simp add: sync_starts(1) [OF idle pool])
qed

lemma snapshot_facts:
  assumes "queue_ok s"
  shows "distinct (map item_id (by_timestamp (outbox s)))"
    and "list_all replayable (by_timestamp (outbox s))"
  using assms queue_ok_distinct [OF assms]
  by (simp_all add: distinct_map_by_timestamp queue_ok_def list_all_iff set_by_timestamp)

lemma filter_InFlight_mains: "filter is_InFlight ts = filter is_InFlight (mains ts)"
proof -
  have "\<And>t. is_InFlight t \<Longrightarrow> \<not> is_removal t"
    by (case_tac t) simp_all
  then show ?thesis
    by (induction ts) (auto simp: mains_def)
qed

text \<open>
  Claim C1, as amended. A drain is started on an open store whose outbox holds replayable
  rows, while nothing else is suspended, and every call that is answered succeeds. Then
  at every moment the requests made so far are those of the first rows of the snapshot,
  in the order of the snapshot: ascending timestamps, rows of equal timestamp by ascending
  key. At most one request is in flight, it is the one made last, and once no continuation
  of the drain is left every row has been requested. When the timestamps do not decrease
  along the order of insertion, the snapshot is the outbox in its order of insertion.
\<close>

theorem drain_replays_in_timestamp_order:
  assumes rd: "ready (indexedDb a)" and idle: "\<not> shouldSkipSync a" and pool: "suspended a = []"
    and q: "queue_ok (indexedDb a)"
    and xs: "xs = by_timestamp (outbox (indexedDb a))"
    and rn: "run ((t0, CallSync) # (t1, Resume SyncAwaitOutbox) # es) a = Some b"
    and ok: "list_all (\<lambda>(t, ev). succeeding ev) es"
  shows "(\<exists>k \<le> length xs.
        requests b = requests a @ map request_of (take k xs)
      \<and> length (filter is_InFlight (suspended b)) \<le> 1
      \<and> (\<forall>x r. InFlight x r \<in> set (suspended b) \<longrightarrow> 0 < k \<and> x = xs ! (k - 1) \<and> r = drop k xs)
      \<and> (mains (suspended b) = [] \<longrightarrow> k = length xs))
    \<and> (sorted (map timestamp (outbox (indexedDb a))) \<longrightarrow> xs = outbox (indexedDb a))"
proof
  have sc: "\<And>ev. succeeding ev \<Longrightarrow> internal ev \<and> \<not> fatal ev"
    by (erule succeeding.elims) simp_all
  have int: "list_all (\<lambda>(t, ev). internal ev) es"
    using ok sc by (fastforce simp: list_all_iff)
  have int': "list_all (\<lambda>(t, ev). internal ev \<and> (False \<or> \<not> fatal ev)) es"
    using ok sc by (fastforce simp: list_all_iff)
  have split: "run ((t0, CallSync) # (t1, Resume SyncAwaitOutbox) # es) a =
      (case run [(t0, CallSync), (t1, Resume SyncAwaitOutbox)] a of None \<Rightarrow> None
       | Some b \<Rightarrow> run es b)"
    using run_append [of "[(t0, CallSync), (t1, Resume SyncAwaitOutbox)]" es a] by simp
  show "\<exists>k \<le> length xs.
        requests b = requests a @ map request_of (take k xs)
      \<and> length (filter is_InFlight (suspended b)) \<le> 1
      \<and> (\<forall>x r. InFlight x r \<in> set (suspended b) \<longrightarrow> 0 < k \<and> x = xs ! (k - 1) \<and> r = drop k xs)
      \<and> (mains (suspended b) = [] \<longrightarrow> k = length xs)"
  proof (cases "outbox (indexedDb a) = []")
    case True
    from sync_on_empty_outbox [OF rd idle pool True, of t0 t1] rn split
    have "run es a = Some b" by simp
    from idle_run [OF pool int this] have "b = a" .
    then show ?thesis
      using pool True xs by (intro exI [of _ 0]) (simp add: by_timestamp_def)
  next
    case False
    from drain_starts [OF rd idle pool q False, of t0 t1 False]
    obtain b0 where b0: "run [(t0, CallSync), (t1, Resume SyncAwaitOutbox)] a = Some b0"
      and d0: "drain_at False xs (requests a) 0 b0"
      unfolding xs by blast
    from rn split b0 have "run es b0 = Some b" by simp
    from drain_at_run [OF d0 snapshot_facts [OF q, folded xs] this int']
    obtain m where d: "drain_at False xs (requests a) m b" by blast
    let ?k = "min (Suc m) (length xs)"
    have req: "requests b = requests a @ map request_of (take ?k xs)"
      using d by (simp add: drain_at_def min_def)
    have one: "length (mains (suspended b)) \<le> 1"
      using d by (auto simp: drain_at_def)
    have "length (filter is_InFlight (mains (suspended b))) \<le> length (mains (suspended b))"
      by (rule length_filter_le)
    with one have "length (filter is_InFlight (mains (suspended b))) \<le> 1"
      by linarith
    then have fl: "length (filter is_InFlight (suspended b)) \<le> 1"
      by (simp only: filter_InFlight_mains [of "suspended b"])
    have cur: "\<forall>x r. InFlight x r \<in> set (suspended b) \<longrightarrow>
        0 < ?k \<and> x = xs ! (?k - 1) \<and> r = drop ?k xs"
    proof (intro allI impI)
      fix x r assume "InFlight x r \<in> set (suspended b)"
      from drain_at_main [OF d this]
      show "0 < ?k \<and> x = xs ! (?k - 1) \<and> r = drop ?k xs"
        by (auto simp: min_def)
    qed
    have fin: "mains (suspended b) = [] \<longrightarrow> ?k = length xs"
      using d by (auto simp: drain_at_def)
    show ?thesis
      using req fl cur fin by (intro exI [of _ ?k]) simp
  qed
next
  show "sorted (map timestamp (outbox (indexedDb a))) \<longrightarrow> xs = outbox (indexedDb a)"
    using q in_order_by_timestamp [of "outbox (indexedDb a)"]
    by (simp add: xs queue_ok_def)
qed

text \<open>
  Claim C4. A drain of the snapshot \<open>xs\<close> is under way, left to itself, with the request of
  \<open>item\<close> in flight and \<open>rest\<close> buffered, and that request fails with an error that is
  no client error. Then \<open>item\<close> is some \<open>xs ! m\<close> and \<open>rest\<close> the rows after it; whatever
  is scheduled afterwards, no further request is made, \<open>item\<close> and \<open>rest\<close> stay in the
  outbox as they are, the conflict log and the counters of completed and failed items
  stay as they were when the call failed, and the status says that no drain is running.
\<close>

theorem drain_halts_on_transient_failure:
  assumes rd: "ready (indexedDb a)" and idle: "\<not> shouldSkipSync a" and pool: "suspended a = []"
    and q: "queue_ok (indexedDb a)"
    and xs: "xs = by_timestamp (outbox (indexedDb a))"
    and r1: "run ((t0, CallSync) # (t1, Resume SyncAwaitOutbox) # es1) a = Some b"
    and i1: "list_all (\<lambda>(t, ev). internal ev) es1"
    and fl: "InFlight item rest \<in> set (suspended b)"
    and e: "\<not> client_error e"
    and r2: "run ((t2, Respond item rest (Inl e)) # es2) b = Some c"
    and i2: "list_all (\<lambda>(t, ev). internal ev) es2"
  shows "\<exists>m < length xs.
        item = xs ! m \<and> rest = drop (Suc m) xs
      \<and> requests c = requests a @ map request_of (take (Suc m) xs)
      \<and> set (item # rest) \<subseteq> set (outbox (indexedDb c))
      \<and> syncConflicts (indexedDb c) = syncConflicts (indexedDb b)
      \<and> completedItems (currentStatus c) = completedItems (currentStatus b)
      \<and> failedItems (currentStatus c) = failedItems (currentStatus b)
      \<and> \<not> isSyncing (currentStatus c)"
proof -
  have split: "run ((t0, CallSync) # (t1, Resume SyncAwaitOutbox) # es1) a =
      (case run [(t0, CallSync), (t1, Resume SyncAwaitOutbox)] a of None \<Rightarrow> None
       | Some b \<Rightarrow> run es1 b)"
    using run_append [of "[(t0, CallSync), (t1, Resume SyncAwaitOutbox)]" es1 a] by simp
  have ne: "outbox (indexedDb a) \<noteq> []"
  proof
    assume em: "outbox (indexedDb a) = []"
    from sync_on_empty_outbox [OF rd idle pool em, of t0 t1] r1 split
    have "run es1 a = Some b" by simp
    from idle_run [OF pool i1 this] pool fl show False by simp
  qed
  from drain_starts [OF rd idle pool q ne, of t0 t1 True]
  obtain b0 where b0: "run [(t0, CallSync), (t1, Resume SyncAwaitOutbox)] a = Some b0"
    and d0: "drain_at True xs (requests a) 0 b0"
    unfolding xs by blast
  from r1 split b0 have rb: "run es1 b0 = Some b" by simp
  have i1': "list_all (\<lambda>(t, ev). internal ev \<and> (True \<or> \<not> fatal ev)) es1"
    using i1 by simp
  note facts = snapshot_facts [OF q, folded xs]
  from drain_at_run [OF d0 facts rb i1']
  obtain m where d: "drain_at True xs (requests a) m b" by blast
  from drain_at_main [OF d fl]
  have m: "m < length xs" and item: "item = xs ! m" and rest: "rest = drop (Suc m) xs"
    by auto
  let ?b1 = "handleServerError (unsuspend (InFlight item rest) b)"
  have s1: "step t2 (Respond item rest (Inl e)) b = Some ?b1"
    by (rule step_Respond_server [OF fl e])
  with r2 have rc: "run es2 ?b1 = Some c" by simp
  have d1: "drain_at True xs (requests a) m ?b1"
    by (rule drain_at_halt [OF d fl])
  have rd1: "ready (indexedDb ?b1)"
    using d1 by (simp add: drain_at_def)
  have mn1: "mains (suspended ?b1) = []"
    using drain_at_main [OF d fl]
    by (simp add: handleServerError_fields unsuspend_fields mains_remove1_main)
  have pool1: "\<forall>t \<in> set (suspended ?b1). \<exists>y. t = RemoveOnSuccess y \<and> y \<in> set (take m xs)"
  proof
    fix t assume t: "t \<in> set (suspended ?b1)"
    have "is_removal t"
      using mn1 t by (auto simp: mains_def filter_empty_conv)
    with d1 t show "\<exists>y. t = RemoveOnSuccess y \<and> y \<in> set (take m xs)"
      by (auto simp: drain_at_def list_all_iff)
  qed
  have valid1: "list_all (\<lambda>t. \<exists>y. t = RemoveOnSuccess y \<and> hasValidItemId y) (suspended ?b1)"
    unfolding list_all_iff
  proof
    fix t assume "t \<in> set (suspended ?b1)"
    with pool1 obtain y where t: "t = RemoveOnSuccess y" and y: "y \<in> set (take m xs)" by blast
    from y have "y \<in> set xs" by (rule in_set_takeD)
    with facts(2) have "hasValidItemId y"
      by (simp add: list_all_iff replayable_def)
    with t show "\<exists>y. t = RemoveOnSuccess y \<and> hasValidItemId y" by simp
  qed
  note quiet = quiet_run [OF rd1 valid1 rc i2]
  have req: "requests c = requests a @ map request_of (take (Suc m) xs)"
    using quiet d1 by (simp add: drain_at_def)
  have stay: "set (item # rest) \<subseteq> set (outbox (indexedDb c))"
  proof
    fix r assume "r \<in> set (item # rest)"
    then have r: "r \<in> set (drop m xs)"
      using m item rest by (simp add: Cons_nth_drop_Suc)
    with d1 have in1: "r \<in> set (outbox (indexedDb ?b1))"
      by (auto simp: drain_at_def)
    have "\<forall>y. RemoveOnSuccess y \<in> set (suspended ?b1) \<longrightarrow> item_id y \<noteq> item_id r"
    proof (intro allI impI)
      fix y assume "RemoveOnSuccess y \<in> set (suspended ?b1)"
      with pool1 have "y \<in> set (take m xs)" by auto
      from distinct_take_drop [OF facts(1) this r] show "item_id y \<noteq> item_id r" .
    qed
    with quiet in1 show "r \<in> set (outbox (indexedDb c))" by blast
  qed
  have st: "syncConflicts (indexedDb c) = syncConflicts (indexedDb b)
      \<and> completedItems (currentStatus c) = completedItems (currentStatus b)
      \<and> failedItems (currentStatus c) = failedItems (currentStatus b)
      \<and> \<not> isSyncing (currentStatus c)"
    using quiet
    by (simp add: handleServerError_fields unsuspend_fields)
       (simp add: handleServerError_def updateStatus_fields unsuspend_fields)
  from m item rest req stay st show ?thesis by blast
qed

theorem drain_replays_in_timestamp_order_witness:
  "ready (indexedDb three_queued) \<and> \<not> shouldSkipSync three_queued
   \<and> suspended three_queued = [] \<and> queue_ok (indexedDb three_queued)
   \<and> by_timestamp (outbox (indexedDb three_queued)) = [item_A, item_B, item_C]
   \<and> list_all (\<lambda>(t, ev). succeeding ev) all_succeed
   \<and> map_option requests
         (run ((3000, CallSync) # (3001, Resume SyncAwaitOutbox) # all_succeed) three_queued)
       = Some [request_of item_A, request_of item_B, request_of item_C]"
proof -
  have h: "ready (indexedDb three_queued)" "\<not> shouldSkipSync three_queued"
    "suspended three_queued = []" "queue_ok (indexedDb three_queued)"
    by code_simp+
  have xs: "by_timestamp (outbox (indexedDb three_queued)) = [item_A, item_B, item_C]"
    by code_simp
  have ok: "list_all (\<lambda>(t, ev). succeeding ev) all_succeed"
    by (simp add: all_succeed_def)
  have "map_option (\<lambda>b. ())
      (run ((3000, CallSync) # (3001, Resume SyncAwaitOutbox) # all_succeed) three_queued) = Some ()"
    by code_simp
  then obtain b where
    b: "run ((3000, CallSync) # (3001, Resume SyncAwaitOutbox) # all_succeed) three_queued = Some b"
    by auto
  have "map_option (\<lambda>b. mains (suspended b))
      (run ((3000, CallSync) # (3001, Resume SyncAwaitOutbox) # all_succeed) three_queued) = Some []"
    by code_simp
  with b have fin: "mains (suspended b) = []" by simp
  have r0: "requests three_queued = []" by code_simp
  from drain_replays_in_timestamp_order [OF h xs [symmetric] b ok] fin
  have "requests b = requests three_queued @ map request_of [item_A, item_B, item_C]"
    by auto
  with r0 b h xs ok show ?thesis by simp
qed


text \<open>
  Claim C1 as stated fails: a POST queued when the clock reads \<open>5000\<close> and then a PUT
  queued when it reads \<open>4000\<close> are replayed PUT first.
\<close>

theorem clock_set_back_counterexample:
  "outbox (indexedDb clock_set_back) = [post_late, put_early]
   \<and> map_option requests (run [(6000, CallSync), (6001, Resume SyncAwaitOutbox),
        (6002, Respond put_early [post_late] (Inr JNull)),
        (6003, Respond post_late [] (Inr JNull))] clock_set_back)
     = Some [request_of put_early, request_of post_late]"
  by code_simp


theorem drain_halts_on_transient_failure_witness:
  "ready (indexedDb three_queued) \<and> \<not> shouldSkipSync three_queued
   \<and> suspended three_queued = [] \<and> queue_ok (indexedDb three_queued)
   \<and> \<not> client_error server_error
   \<and> map_option (outbox \<circ> indexedDb) (run second_fails three_queued) = Some [item_B, item_C]
   \<and> map_option (syncConflicts \<circ> indexedDb) (run second_fails three_queued) = Some []
   \<and> map_option requests (run second_fails three_queued)
       = Some [request_of item_A, request_of item_B]
   \<and> map_option currentStatus (run second_fails three_queued)
       = Some \<lparr>isSyncing = False, totalItems = 3, completedItems = 1, failedItems = 0\<rparr>"
proof -
  let ?pre = "[(3000, CallSync), (3001, Resume SyncAwaitOutbox),
      (3002, Respond item_A [item_B, item_C] (Inr saved))]"
  let ?post = "[(3003, Respond item_B [item_C] (Inl server_error)),
      (3004, Resume (RemoveOnSuccess item_A))]"
  have sf: "second_fails = ?pre @ ?post"
    by (simp add: second_fails_def)
  have h: "ready (indexedDb three_queued)" "\<not> shouldSkipSync three_queued"
    "suspended three_queued = []" "queue_ok (indexedDb three_queued)"
    by code_simp+
  have e: "\<not> client_error server_error"
    by code_simp
  have "map_option (\<lambda>b. ()) (run ?pre three_queued) = Some ()"
    by code_simp
  then obtain b where b: "run ?pre three_queued = Some b"
    by auto
  have "map_option suspended (run ?pre three_queued)
      = Some [RemoveOnSuccess item_A, InFlight item_B [item_C]]"
    by code_simp
  with b have fl: "InFlight item_B [item_C] \<in> set (suspended b)"
    by simp
  have "map_option (\<lambda>b. ()) (run second_fails three_queued) = Some ()"
    by code_simp
  then obtain c where c: "run second_fails three_queued = Some c"
    by auto
  have post: "run ?post b = Some c"
    using c b run_append [of ?pre ?post three_queued] by (simp add: sf)
  have i1: "list_all (\<lambda>(t, ev). internal ev) [(3002, Respond item_A [item_B, item_C] (Inr saved))]"
    and i2: "list_all (\<lambda>(t, ev). internal ev) [(3004, Resume (RemoveOnSuccess item_A))]"
    by simp_all
  have ob: "map_option (outbox \<circ> indexedDb) (run second_fails three_queued) = Some [item_B, item_C]"
    and cf: "map_option (syncConflicts \<circ> indexedDb) (run second_fails three_queued) = Some []"
    and rq: "map_option requests (run second_fails three_queued)
       = Some [request_of item_A, request_of item_B]"
    and cs: "map_option currentStatus (run second_fails three_queued)
       = Some \<lparr>isSyncing = False, totalItems = 3, completedItems = 1, failedItems = 0\<rparr>"
    by code_simp+
  from drain_halts_on_transient_failure [OF h refl b i1 fl e post i2]
  have "set [item_B, item_C] \<subseteq> set (outbox (indexedDb c))"
    by auto
  with h e ob cf rq cs show ?thesis by simp
qed


text \<open>
  The guard of \<open>sync\<close>: while a drain is marked as running, or offline, a call of \<open>sync\<close>
  changes nothing.
\<close>

lemma sync_is_skipped:
  "isSyncing (currentStatus a) \<or> \<not> onLine a \<Longrightarrow> step now CallSync a = Some a"
  by (simp add: step_def sync_def shouldSkipSync_def)

text \<open>
  Claim C2 fails on the code. Two calls of \<open>sync\<close>, made before the snapshot of the first
  has resolved, both pass the guard: \<open>isSyncing\<close> is set only after the \<^verbatim>\<open>await\<close>. Both
  drains run: the one queued row is requested twice, and two requests are in flight.
\<close>

theorem two_syncs_overlap:
  "map_option requests (run [(3000, CallSync), (3000, CallSync),
       (3001, Resume SyncAwaitOutbox), (3002, Resume SyncAwaitOutbox)] queued_app)
     = Some [request_of queued_item, request_of queued_item]
   \<and> map_option suspended (run [(3000, CallSync), (3000, CallSync),
       (3001, Resume SyncAwaitOutbox), (3002, Resume SyncAwaitOutbox)] queued_app)
     = Some [InFlight queued_item [], InFlight queued_item []]"
  by code_simp



text \<open>
  Claim C3, as amended. On an open store, when the request of a queued item with a
  non-zero timestamp is rejected with a client error, the item is parked by two store
  calls, each a step of its own. The response itself changes no collection. The first
  call appends one entry to the conflict log, with the url, method, payload and
  timestamp of the item and the description of the error, and leaves the outbox alone:
  until the second call the item is in both collections. The second call removes the
  rows with the key of the item from the outbox and leaves the conflict log alone. Then
  the drain turns to the next item, or completes.
\<close>

theorem client_error_parks_item:
  assumes rd: "ready (indexedDb a)" and fl: "InFlight item rest \<in> set (suspended a)"
    and v: "hasValidItemId item" and ce: "client_error e" and ts: "timestamp item \<noteq> 0"
    and inq: "item \<in> set (outbox (indexedDb a))"
    and parked: "parked = \<lparr>url = url item, http_method = http_method item,
        payload = payload item, timestamp = timestamp item,
        error = (if error_message e \<noteq> [] then error_message e
                 else ''HTTP '' @ show_nat (the (error_status e))),
        conflict_id = Some (syncConflicts_keygen (indexedDb a) + 1)\<rparr>"
  shows "\<exists>a1 a2 a3.
      step t1 (Respond item rest (Inl e)) a = Some a1
    \<and> step t2 (Resume (ConflictAdd e item rest)) a1 = Some a2
    \<and> step t3 (Resume (ConflictRemove e item rest)) a2 = Some a3
    \<and> indexedDb a1 = indexedDb a
    \<and> outbox (indexedDb a2) = outbox (indexedDb a)
    \<and> syncConflicts (indexedDb a2) = syncConflicts (indexedDb a) @ [parked]
    \<and> item \<in> set (outbox (indexedDb a2))
    \<and> outbox (indexedDb a3) = filter (\<lambda>r. item_id r \<noteq> item_id item) (outbox (indexedDb a))
    \<and> syncConflicts (indexedDb a3) = syncConflicts (indexedDb a) @ [parked]
    \<and> item \<notin> set (outbox (indexedDb a3))
    \<and> (rest = [] \<longrightarrow> CompleteAwaitOutbox \<in> set (suspended a3))
    \<and> (\<forall>x r. rest = x # r \<and> replayable x \<longrightarrow>
          InFlight x r \<in> set (suspended a3) \<and> requests a3 = requests a @ [request_of x])"
proof -
  let ?a1 = "spawn (ConflictAdd e item rest) (unsuspend (InFlight item rest) a)"
  let ?s2 = "(indexedDb a)\<lparr>
           syncConflicts := syncConflicts (indexedDb a) @
             [(conflict_of e item)\<lparr>timestamp := (if timestamp item \<noteq> 0 then timestamp item else t2),
                 conflict_id := Some (syncConflicts_keygen (indexedDb a) + 1)\<rparr>],
           syncConflicts_keygen := syncConflicts_keygen (indexedDb a) + 1\<rparr>"
  let ?a2 = "spawn (ConflictRemove e item rest)
        ((unsuspend (ConflictAdd e item rest) ?a1)\<lparr>indexedDb := ?s2\<rparr>)"
  let ?c = "(unsuspend (ConflictRemove e item rest) ?a2)\<lparr>indexedDb := (indexedDb ?a2)\<lparr>
           outbox := filter (\<lambda>r. item_id r \<noteq> item_id item) (outbox (indexedDb ?a2))\<rparr>\<rparr>"
  let ?a3 = "handleClientError_finish rest ?c"
  have s1: "step t1 (Respond item rest (Inl e)) a = Some ?a1"
    by (rule step_Respond_client [OF fl ce])
  have rd1: "ready (indexedDb ?a1)"
    using rd by (simp add: spawn_fields unsuspend_fields)
  have in1: "ConflictAdd e item rest \<in> set (suspended ?a1)"
    by (simp add: spawn_fields)
  have s2: "step t2 (Resume (ConflictAdd e item rest)) ?a1 = Some ?a2"
    using step_ConflictAdd [OF rd1 in1 v, of t2]
    by (simp add: spawn_fields unsuspend_fields)
  have rd2: "ready (indexedDb ?a2)"
    using rd by (simp add: spawn_fields unsuspend_fields ready_conflicts_update)
  have in2: "ConflictRemove e item rest \<in> set (suspended ?a2)"
    by (simp add: spawn_fields)
  have s3: "step t3 (Resume (ConflictRemove e item rest)) ?a2 = Some ?a3"
    by (rule step_ConflictRemove [OF rd2 in2 v])
  have st: "error_status e \<noteq> None"
    using ce by (cases "error_status e") (simp_all add: client_error_def)
  have pk: "(conflict_of e item)\<lparr>timestamp := timestamp item,
      conflict_id := Some (Suc (syncConflicts_keygen (indexedDb a)))\<rparr> = parked"
    unfolding parked conflict_of_def using st
    by (cases "error_status e") simp_all
  have db1: "indexedDb ?a1 = indexedDb a"
    by (simp add: spawn_fields unsuspend_fields)
  have ob2: "outbox (indexedDb ?a2) = outbox (indexedDb a)"
    by (simp add: spawn_fields unsuspend_fields)
  have cf2: "syncConflicts (indexedDb ?a2) = syncConflicts (indexedDb a) @ [parked]"
    using ts by (simp add: spawn_fields unsuspend_fields pk)
  have in2': "item \<in> set (outbox (indexedDb ?a2))"
    using inq by (simp only: ob2)
  have ob3: "outbox (indexedDb ?a3) =
      filter (\<lambda>r. item_id r \<noteq> item_id item) (outbox (indexedDb a))"
    by (simp add: handleClientError_finish_def subscribe_next_fields updateStatus_fields
          unsuspend_fields spawn_fields)
  have cf3: "syncConflicts (indexedDb ?a3) = syncConflicts (indexedDb a) @ [parked]"
    using ts
    by (simp add: handleClientError_finish_def subscribe_next_fields updateStatus_fields
          unsuspend_fields spawn_fields pk)
  have gone: "item \<notin> set (outbox (indexedDb ?a3))"
    by (simp only: ob3) simp
  have fin: "rest = [] \<longrightarrow> CompleteAwaitOutbox \<in> set (suspended ?a3)"
    by (simp add: handleClientError_finish_def handleSyncComplete_def spawn_fields)
  have nxt: "\<forall>x r. rest = x # r \<and> replayable x \<longrightarrow>
          InFlight x r \<in> set (suspended ?a3) \<and> requests ?a3 = requests a @ [request_of x]"
  proof (intro allI impI)
    fix x r assume "rest = x # r \<and> replayable x"
    then have rest: "rest = x # r" and rx: "replayable x" by simp_all
    show "InFlight x r \<in> set (suspended ?a3) \<and> requests ?a3 = requests a @ [request_of x]"
      unfolding handleClientError_finish_def rest
      by (simp only: subscribe_next_Cons [OF rx])
         (simp add: spawn_fields updateStatus_fields unsuspend_fields)
  qed
  show ?thesis
    by (intro exI [of _ ?a1] exI [of _ ?a2] exI [of _ ?a3] conjI)
       (rule s1 s2 s3 db1 ob2 cf2 in2' ob3 cf3 gone fin nxt)+
qed


theorem client_error_parks_item_witness:
  "ready (indexedDb second_in_flight)
   \<and> InFlight item_B [item_C] \<in> set (suspended second_in_flight)
   \<and> hasValidItemId item_B \<and> client_error bad_request \<and> timestamp item_B \<noteq> 0
   \<and> outbox (indexedDb second_in_flight) = [item_A, item_B, item_C]
   \<and> map_option (outbox \<circ> indexedDb) (run second_parked second_in_flight)
       = Some [item_A, item_C]
   \<and> map_option (syncConflicts \<circ> indexedDb) (run second_parked second_in_flight)
       = Some [\<lparr>url = ''/api/session-notes/1'', http_method = ''PUT'',
                 payload = JObj [(''note'', JStr ''b'')], timestamp = 2000,
                 error = ''Bad Request'', conflict_id = Some 1\<rparr>]
   \<and> map_option requests (run second_parked second_in_flight)
       = Some [request_of item_A, request_of item_B, request_of item_C]"
proof -
  have h: "ready (indexedDb second_in_flight)"
    "InFlight item_B [item_C] \<in> set (suspended second_in_flight)"
    "hasValidItemId item_B" "client_error bad_request" "timestamp item_B \<noteq> 0"
    "item_B \<in> set (outbox (indexedDb second_in_flight))"
    by code_simp+
  have c: "outbox (indexedDb second_in_flight) = [item_A, item_B, item_C]"
    "map_option (outbox \<circ> indexedDb) (run second_parked second_in_flight)
       = Some [item_A, item_C]"
    "map_option (syncConflicts \<circ> indexedDb) (run second_parked second_in_flight)
       = Some [\<lparr>url = ''/api/session-notes/1'', http_method = ''PUT'',
                 payload = JObj [(''note'', JStr ''b'')], timestamp = 2000,
                 error = ''Bad Request'', conflict_id = Some 1\<rparr>]"
    "map_option requests (run second_parked second_in_flight)
       = Some [request_of item_A, request_of item_B, request_of item_C]"
    by code_simp+
  from client_error_parks_item [OF h refl, of 3005 3006 3007]
  have "\<exists>a3 :: app. item_B \<notin> set (outbox (indexedDb a3))"
    by blast
  with h c show ?thesis by simp
qed


text \<open>
  Claim C3 as stated fails: between the two store calls the rejected item is in the
  outbox and in the conflict log.
\<close>

theorem parked_item_in_both_counterexample:
  "map_option (outbox \<circ> indexedDb) (run second_half_parked second_in_flight)
     = Some [item_A, item_B, item_C]
   \<and> map_option (syncConflicts \<circ> indexedDb) (run second_half_parked second_in_flight)
     = Some [\<lparr>url = ''/api/session-notes/1'', http_method = ''PUT'',
               payload = JObj [(''note'', JStr ''b'')], timestamp = 2000,
               error = ''Bad Request'', conflict_id = Some 1\<rparr>]"
  by code_simp

subsection \<open>The statuses of a drain\<close>

lemma statuses_snoc: "statuses n (os @ [ok]) = statuses n os @ [status_after n (os @ [ok])]"
  by (simp add: statuses_def)

lemma last_statuses: "statuses n os \<noteq> [] \<and> last (statuses n os) = status_after n os"
  by (simp add: statuses_def)

lemma status_after_snoc:
  "status_after n (os @ [True]) =
     (status_after n os)\<lparr>completedItems := completedItems (status_after n os) + 1\<rparr>"
  "status_after n (os @ [False]) =
     (status_after n os)\<lparr>completedItems := completedItems (status_after n os) + 1,
        failedItems := failedItems (status_after n os) + 1\<rparr>"
  by (simp_all add: status_after_def)

lemma halted_status_eq:
  "halted_status n os =
    \<lparr>isSyncing = False, totalItems = totalItems (status_after n os),
     completedItems = completedItems (status_after n os),
     failedItems = failedItems (status_after n os)\<rparr>"
  by (simp add: halted_status_def status_after_def)

lemma mains_subscribe_next:
  assumes "list_all replayable r"
  shows "mains (suspended (subscribe_next r b)) \<noteq> []"
proof (cases r)
  case Nil
  then show ?thesis by (simp add: handleSyncComplete_def spawn_fields mains_append)
next
  case (Cons x r')
  with assms have "replayable x" by simp
  then show ?thesis
    unfolding Cons by (simp only: subscribe_next_Cons) (simp add: spawn_fields mains_append)
qed

lemma outcomes_Cons: "outcomes ((t, ev) # es) = outcome ev @ outcomes es"
  by (simp add: outcomes_def)

lemma drain_status_step:
  assumes S: "drain_status xs R0 P0 os hl a" and dist: "distinct (map item_id xs)"
    and repl: "list_all replayable xs"
    and st: "step now ev a = Some a'" and int: "internal ev"
  shows "drain_status xs R0 P0 (os @ outcome ev) (hl \<or> fatal ev) a'"
proof -
  let ?n = "length xs"
  from S have D: "drain_at True xs R0 (length os) a" by (simp add: drain_status_def)
  have rd: "ready (indexedDb a)" using D by (simp add: drain_at_def)
  have running: "\<not> hl \<and> published a = P0 @ statuses ?n os
      \<and> currentStatus a = status_after ?n os"
    if "t \<in> set (suspended a)" and "\<not> is_removal t" for t
  proof -
    from drain_at_main [OF D that] have "mains (suspended a) \<noteq> []" by simp
    with S show ?thesis by (auto simp: drain_status_def split: if_splits)
  qed
  show ?thesis
  proof (cases ev)
    case CallSync
    with int show ?thesis by simp
  next
    case (Resume t)
    from step_Resume_cases [OF st [unfolded Resume]]
    have t: "t \<in> set (suspended a)" and res: "resume now t (unsuspend t a) = Some a'"
      by simp_all
    show ?thesis
    proof (cases t)
      case SyncAwaitOutbox
      with drain_at_main [OF D t] show ?thesis by simp
    next
      case (InFlight x r)
      with res show ?thesis by simp
    next
      case (RemoveOnSuccess y)
      have "y \<in> set (take (length os) xs)"
        using D t RemoveOnSuccess by (auto simp: drain_at_def list_all_iff)
      then have "y \<in> set xs" by (rule in_set_takeD)
      with repl have v: "hasValidItemId y"
        by (simp add: list_all_iff replayable_def)
      from step_RemoveOnSuccess [OF rd t [unfolded RemoveOnSuccess] v, of now] st
      have a': "a' = (unsuspend (RemoveOnSuccess y) a)\<lparr>indexedDb := (indexedDb a)\<lparr>
             outbox := filter (\<lambda>r. item_id r \<noteq> item_id y) (outbox (indexedDb a))\<rparr>\<rparr>"
        by (simp add: Resume RemoveOnSuccess)
      have m: "mains (suspended a') = mains (suspended a)"
        unfolding a' by (simp add: unsuspend_fields mains_remove1_removal)
      have p: "published a' = published a" "currentStatus a' = currentStatus a"
        unfolding a' by (simp_all add: unsuspend_fields)
      from drain_at_removal [OF D dist repl t [unfolded RemoveOnSuccess]]
      have "drain_at True xs R0 (length os) a'" by (simp add: a')
      with S m p show ?thesis
        by (simp add: drain_status_def Resume RemoveOnSuccess)
    next
      case (ConflictAdd e x r)
      from drain_at_main [OF D t] ConflictAdd
      have "length os < length xs" and "x = xs ! length os" by auto
      with repl have v: "hasValidItemId x"
        by (simp add: list_all_iff replayable_def)
      from step_ConflictAdd [OF rd t [unfolded ConflictAdd] v, of now] st
      have a': "a' = spawn (ConflictRemove e x r)
          ((unsuspend (ConflictAdd e x r) a)\<lparr>indexedDb := (indexedDb a)\<lparr>
             syncConflicts := syncConflicts (indexedDb a) @
               [(conflict_of e x)\<lparr>timestamp := (if timestamp x \<noteq> 0 then timestamp x else now),
                   conflict_id := Some (syncConflicts_keygen (indexedDb a) + 1)\<rparr>],
             syncConflicts_keygen := syncConflicts_keygen (indexedDb a) + 1\<rparr>\<rparr>)"
        by (simp add: Resume ConflictAdd)
      have m: "mains (suspended a') \<noteq> []"
        unfolding a' by (simp add: spawn_fields mains_append)
      from running [OF t] ConflictAdd
      have "\<not> hl \<and> published a' = P0 @ statuses ?n os \<and> currentStatus a' = status_after ?n os"
        unfolding a' by (simp add: spawn_fields unsuspend_fields)
      with drain_at_conflict_add [OF D t [unfolded ConflictAdd]] m show ?thesis
        by (simp add: drain_status_def Resume ConflictAdd a')
    next
      case (ConflictRemove e x r)
      from drain_at_main [OF D t] ConflictRemove
      have lt: "length os < length xs" and x: "x = xs ! length os"
        and r: "r = drop (Suc (length os)) xs" by auto
      with repl have v: "hasValidItemId x"
        by (simp add: list_all_iff replayable_def)
      from repl have rr: "list_all replayable r"
        unfolding r list_all_iff by (auto dest: in_set_dropD)
      let ?b = "(unsuspend (ConflictRemove e x r) a)\<lparr>indexedDb := (indexedDb a)\<lparr>
             outbox := filter (\<lambda>r. item_id r \<noteq> item_id x) (outbox (indexedDb a))\<rparr>\<rparr>"
      from step_ConflictRemove [OF rd t [unfolded ConflictRemove] v, of now] st
      have a': "a' = handleClientError_finish r ?b"
        by (simp add: Resume ConflictRemove)
      have m: "mains (suspended a') \<noteq> []"
        unfolding a' handleClientError_finish_def by (rule mains_subscribe_next [OF rr])
      from running [OF t] ConflictRemove
      have "\<not> hl \<and> published a' = P0 @ statuses ?n (os @ [False])
          \<and> currentStatus a' = status_after ?n (os @ [False])"
        unfolding a' handleClientError_finish_def
        by (simp add: subscribe_next_fields updateStatus_fields unsuspend_fields statuses_snoc
              status_after_snoc)
      with drain_at_conflict_remove [OF D dist repl t [unfolded ConflictRemove]] m show ?thesis
        by (simp add: drain_status_def Resume ConflictRemove a')
    next
      case CompleteAwaitOutbox
      from step_Complete [OF rd t [unfolded CompleteAwaitOutbox], of now] st
      have a': "a' = updateStatus idle (unsuspend CompleteAwaitOutbox a)"
        by (simp add: Resume CompleteAwaitOutbox)
      from drain_at_main [OF D t] CompleteAwaitOutbox
      have mn: "mains (suspended a) = [CompleteAwaitOutbox]" and len: "length os = length xs"
        by auto
      from mn have m: "mains (suspended a') = []"
        unfolding a' by (simp add: updateStatus_fields unsuspend_fields mains_remove1_main)
      from running [OF t] CompleteAwaitOutbox
      have "\<not> hl \<and> published a' = P0 @ statuses ?n os @ [idle] \<and> currentStatus a' = idle"
        unfolding a' by (simp add: updateStatus_fields unsuspend_fields)
      with drain_at_complete [OF D t [unfolded CompleteAwaitOutbox], of idle] m len show ?thesis
        by (simp add: drain_status_def Resume CompleteAwaitOutbox a')
    qed
  next
    case (Respond x r res)
    from step_Respond_cases [OF st [unfolded Respond]]
    have t: "InFlight x r \<in> set (suspended a)" .
    from drain_at_main [OF D t]
    have mn: "mains (suspended a) = [InFlight x r]"
      and lt: "length os < length xs" and x: "x = xs ! length os"
      and r: "r = drop (Suc (length os)) xs" by auto
    with repl have v: "hasValidItemId x"
      by (simp add: list_all_iff replayable_def)
    from repl have rr: "list_all replayable r"
      unfolding r list_all_iff by (auto dest: in_set_dropD)
    show ?thesis
    proof (cases res)
      case (Inr response)
      from step_Respond_success [OF t v, of now response] st
      have a': "a' = subscribe_next r (incrementCompletedItems
          (handleSuccessfulRequest x response (unsuspend (InFlight x r) a)))"
        by (simp add: Respond Inr)
      have m: "mains (suspended a') \<noteq> []"
        unfolding a' by (rule mains_subscribe_next [OF rr])
      from running [OF t]
      have "\<not> hl \<and> published a' = P0 @ statuses ?n (os @ [True])
          \<and> currentStatus a' = status_after ?n (os @ [True])"
        unfolding a'
        by (simp add: subscribe_next_fields incrementCompletedItems_def updateStatus_fields
              handleSuccessfulRequest_fields unsuspend_fields statuses_snoc status_after_snoc)
      with drain_at_success [OF D repl t, of response] m show ?thesis
        by (simp add: drain_status_def Respond Inr a')
    next
      case (Inl e)
      show ?thesis
      proof (cases "client_error e")
        case True
        from step_Respond_client [OF t True, of now] st
        have a': "a' = spawn (ConflictAdd e x r) (unsuspend (InFlight x r) a)"
          by (simp add: Respond Inl)
        have m: "mains (suspended a') \<noteq> []"
          unfolding a' by (simp add: spawn_fields mains_append)
        from running [OF t]
        have "\<not> hl \<and> published a' = P0 @ statuses ?n os
            \<and> currentStatus a' = status_after ?n os"
          unfolding a' by (simp add: spawn_fields unsuspend_fields)
        with drain_at_client_error [OF D t, of e] m True show ?thesis
          by (simp add: drain_status_def Respond Inl a')
      next
        case False
        from step_Respond_server [OF t False, of now] st
        have a': "a' = handleServerError (unsuspend (InFlight x r) a)"
          by (simp add: Respond Inl)
        from mn have m: "mains (suspended a') = []"
          unfolding a' by (simp add: handleServerError_fields unsuspend_fields mains_remove1_main)
        from running [OF t]
        have "published a' = P0 @ statuses ?n os @ [halted_status ?n os]
            \<and> currentStatus a' = halted_status ?n os"
          unfolding a'
          by (simp add: handleServerError_def updateStatus_fields unsuspend_fields
                halted_status_eq)
        with drain_at_halt [OF D t] m lt False show ?thesis
          by (simp add: drain_status_def Respond Inl a')
      qed
    qed
  qed
qed

lemma drain_status_run:
  assumes "drain_status xs R0 P0 os hl a" and "distinct (map item_id xs)"
    and "list_all replayable xs"
    and "run es a = Some a'" and "list_all (\<lambda>(t, ev). internal ev) es"
  shows "drain_status xs R0 P0 (os @ outcomes es) (hl \<or> list_ex (\<lambda>(t, ev). fatal ev) es) a'"
  using assms
proof (induction es arbitrary: a os hl)
  case Nil
  then show ?case by (simp add: outcomes_def)
next
  case (Cons tev es)
  obtain now ev where tev: "tev = (now, ev)" by (cases tev)
  from Cons.prems(4) obtain b where st: "step now ev a = Some b" and rn: "run es b = Some a'"
    by (auto simp: tev split: option.splits)
  from Cons.prems(5) have ev: "internal ev"
    and es: "list_all (\<lambda>(t, ev). internal ev) es"
    by (simp_all add: tev)
  from drain_status_step [OF Cons.prems(1) Cons.prems(2) Cons.prems(3) st ev]
  have "drain_status xs R0 P0 (os @ outcome ev) (hl \<or> fatal ev) b" .
  from Cons.IH [OF this Cons.prems(2) Cons.prems(3) rn es]
  show ?case by (simp add: tev outcomes_Cons disj_assoc)
qed

lemma drain_status_starts:
  assumes rd: "ready (indexedDb a)" and idle: "\<not> shouldSkipSync a" and pool: "suspended a = []"
    and q: "queue_ok (indexedDb a)" and ne: "outbox (indexedDb a) \<noteq> []"
  shows "\<exists>b. run [(t0, CallSync), (t1, Resume SyncAwaitOutbox)] a = Some b
    \<and> drain_status (by_timestamp (outbox (indexedDb a))) (requests a) (published a) [] False b"
proof -
  let ?xs = "by_timestamp (outbox (indexedDb a))"
  obtain x r where xs: "?xs = x # r"
    using ne by (cases ?xs) (simp_all add: by_timestamp_Nil)
  have "x \<in> set (outbox (indexedDb a))"
    using xs set_by_timestamp [of "outbox (indexedDb a)"] by auto
  with q have rx: "replayable x"
    by (simp add: queue_ok_def list_all_iff)
  let ?a1 = "spawn SyncAwaitOutbox a"
  let ?b = "subscribe_next (x # r) (startSync (Suc (length r)) a)"
  have s2: "step t1 (Resume SyncAwaitOutbox) ?a1 = Some ?b"
    using step_sync_resumed [of ?a1 x r t1] rd xs sync_starts(2) [OF idle pool]
    by (simp add: spawn_fields)
  have rn: "run [(t0, CallSync), (t1, Resume SyncAwaitOutbox)] a = Some ?b"
    by (simp add: sync_starts(1) [OF idle pool] s2)
  have b: "?b = spawn (InFlight x r) ((startSync (Suc (length r)) a)\<lparr>requests :=
      requests a @ [request_of x]\<rparr>)"
    by (simp only: subscribe_next_Cons [OF rx]) (simp add: startSync_def updateStatus_fields)
  have d: "drain_at True ?xs (requests a) 0 ?b"
    unfolding b using rd pool set_by_timestamp [of "outbox (indexedDb a)"]
    by (simp add: drain_at_def xs spawn_fields startSync_def updateStatus_fields mains_def)
  have m: "mains (suspended ?b) \<noteq> []"
    unfolding b by (simp add: spawn_fields mains_append)
  have p: "published ?b = published a @ statuses (length ?xs) []"
    and c: "currentStatus ?b = status_after (length ?xs) []"
    unfolding b
    by (simp_all add: spawn_fields startSync_def updateStatus_fields xs statuses_def
          status_after_def)
  from d m p c have "drain_status ?xs (requests a) (published a) [] False ?b"
    by (simp add: drain_status_def)
  with rn show ?thesis by blast
qed

text \<open>
  Claim C8, as amended. A drain is started on an open store whose outbox holds \<open>n > 0\<close>
  replayable rows, while nothing else is suspended. Then at every moment, whatever the
  order of the steps, the statuses published since the start are: the status of the
  start, with \<open>isSyncing\<close> on, \<open>totalItems = n\<close> and zero counters; then one status for
  each item dealt with so far, in order, which advances \<open>completedItems\<close> by one and, for
  an item parked after a client error, \<open>failedItems\<close> by one as well; and then one last
  status once the drain is over. When a call has failed other than with a client error,
  the drain is over, it has dealt with fewer than \<open>n\<close> items, and the last status keeps
  \<open>totalItems\<close> and both counters and has \<open>isSyncing\<close> off. Otherwise, once no
  continuation of the drain other than removals is left, all \<open>n\<close> items are dealt with
  and the last status is the all-zero status that is not syncing. The current status is
  always the last one published.
\<close>

theorem drain_publishes_each_transition:
  assumes rd: "ready (indexedDb a)" and idle: "\<not> shouldSkipSync a" and pool: "suspended a = []"
    and q: "queue_ok (indexedDb a)"
    and n: "n = length (outbox (indexedDb a))" and ne: "0 < n"
    and rn: "run ((t0, CallSync) # (t1, Resume SyncAwaitOutbox) # es) a = Some b"
    and int: "list_all (\<lambda>(t, ev). internal ev) es"
  shows "published b = published a @ statuses n (outcomes es)
             @ (if list_ex (\<lambda>(t, ev). fatal ev) es then [halted_status n (outcomes es)]
                else if mains (suspended b) = [] then [idle] else [])
    \<and> currentStatus b = last (published b)
    \<and> length (outcomes es) \<le> n
    \<and> (list_ex (\<lambda>(t, ev). fatal ev) es \<longrightarrow>
          length (outcomes es) < n \<and> mains (suspended b) = [])
    \<and> (mains (suspended b) = [] \<and> \<not> list_ex (\<lambda>(t, ev). fatal ev) es \<longrightarrow>
          length (outcomes es) = n)"
proof -
  let ?xs = "by_timestamp (outbox (indexedDb a))"
  let ?hl = "list_ex (\<lambda>(t, ev). fatal ev) es"
  have len: "length ?xs = n"
    using n by (simp add: length_by_timestamp)
  from n ne have ne': "outbox (indexedDb a) \<noteq> []" by auto
  from drain_status_starts [OF rd idle pool q ne', of t0 t1]
  obtain b0 where r0: "run [(t0, CallSync), (t1, Resume SyncAwaitOutbox)] a = Some b0"
    and S0: "drain_status ?xs (requests a) (published a) [] False b0"
    by blast
  from rn r0 run_append [of "[(t0, CallSync), (t1, Resume SyncAwaitOutbox)]" es a]
  have r1: "run es b0 = Some b" by simp
  from drain_status_run [OF S0 snapshot_facts [OF q] r1 int]
  have S: "drain_status ?xs (requests a) (published a) (outcomes es) ?hl b" by simp
  then have D: "drain_at True ?xs (requests a) (length (outcomes es)) b"
    by (simp add: drain_status_def)
  from D have le: "length (outcomes es) \<le> n"
    by (simp add: drain_at_def len)
  from S have pub: "published b = published a @ statuses n (outcomes es)
             @ (if ?hl then [halted_status n (outcomes es)]
                else if mains (suspended b) = [] then [idle] else [])"
    and cur: "currentStatus b =
      (if ?hl then halted_status n (outcomes es)
       else if mains (suspended b) = [] then idle else status_after n (outcomes es))"
    and hl: "?hl \<longrightarrow> length (outcomes es) < n \<and> mains (suspended b) = []"
    and fin: "mains (suspended b) = [] \<and> \<not> ?hl \<longrightarrow> length (outcomes es) = n"
    by (simp_all add: drain_status_def len split: if_splits)
  have "currentStatus b = last (published b)"
    unfolding pub cur using last_statuses [of n "outcomes es"] by simp
  with pub le hl fin show ?thesis by blast
qed

theorem drain_publishes_each_transition_witness:
  "ready (indexedDb three_queued) \<and> \<not> shouldSkipSync three_queued
   \<and> suspended three_queued = [] \<and> queue_ok (indexedDb three_queued)
   \<and> 0 < length (outbox (indexedDb three_queued))
   \<and> map_option published (run second_rejected three_queued)
      = Some [\<lparr>isSyncing = True, totalItems = 3, completedItems = 0, failedItems = 0\<rparr>,
              \<lparr>isSyncing = True, totalItems = 3, completedItems = 1, failedItems = 0\<rparr>,
              \<lparr>isSyncing = True, totalItems = 3, completedItems = 2, failedItems = 1\<rparr>,
              \<lparr>isSyncing = True, totalItems = 3, completedItems = 3, failedItems = 1\<rparr>,
              \<lparr>isSyncing = False, totalItems = 0, completedItems = 0, failedItems = 0\<rparr>]"
proof -
  let ?es = "[(3002, Respond item_A [item_B, item_C] (Inr saved)),
     (3003, Resume (RemoveOnSuccess item_A)),
     (3004, Respond item_B [item_C] (Inl bad_request)),
     (3005, Resume (ConflictAdd bad_request item_B [item_C])),
     (3006, Resume (ConflictRemove bad_request item_B [item_C])),
     (3007, Respond item_C [] (Inr saved)),
     (3008, Resume CompleteAwaitOutbox),
     (3009, Resume (RemoveOnSuccess item_C))]"
  have sr: "second_rejected = (3000, CallSync) # (3001, Resume SyncAwaitOutbox) # ?es"
    by (simp add: second_rejected_def)
  have h: "ready (indexedDb three_queued)" "\<not> shouldSkipSync three_queued"
    "suspended three_queued = []" "queue_ok (indexedDb three_queued)"
    by code_simp+
  have n: "3 = length (outbox (indexedDb three_queued))"
    by code_simp
  have ce: "client_error bad_request"
    by code_simp
  have int: "list_all (\<lambda>(t, ev). internal ev) ?es"
    by simp
  have nf: "\<not> list_ex (\<lambda>(t, ev). fatal ev) ?es"
    using ce by simp
  have p0: "published three_queued = []"
    by code_simp
  have os: "statuses 3 (outcomes ?es)
      = [\<lparr>isSyncing = True, totalItems = 3, completedItems = 0, failedItems = 0\<rparr>,
         \<lparr>isSyncing = True, totalItems = 3, completedItems = 1, failedItems = 0\<rparr>,
         \<lparr>isSyncing = True, totalItems = 3, completedItems = 2, failedItems = 1\<rparr>,
         \<lparr>isSyncing = True, totalItems = 3, completedItems = 3, failedItems = 1\<rparr>]"
    by code_simp
  have "map_option (\<lambda>b. ()) (run second_rejected three_queued) = Some ()"
    by code_simp
  then obtain b :: app where b: "run second_rejected three_queued = Some b"
    by auto
  have "map_option (mains \<circ> suspended) (run second_rejected three_queued) = Some []"
    by code_simp
  with b have m: "mains (suspended b) = []"
    by simp
  from drain_publishes_each_transition [OF h n _ b [unfolded sr] int]
  have "published b = published three_queued @ statuses 3 (outcomes ?es) @ [idle]"
    using m nf by simp
  then have "map_option published (run second_rejected three_queued)
      = Some [\<lparr>isSyncing = True, totalItems = 3, completedItems = 0, failedItems = 0\<rparr>,
              \<lparr>isSyncing = True, totalItems = 3, completedItems = 1, failedItems = 0\<rparr>,
              \<lparr>isSyncing = True, totalItems = 3, completedItems = 2, failedItems = 1\<rparr>,
              \<lparr>isSyncing = True, totalItems = 3, completedItems = 3, failedItems = 1\<rparr>,
              \<lparr>isSyncing = False, totalItems = 0, completedItems = 0, failedItems = 0\<rparr>]"
    by (simp add: b p0 os idle_def)
  with h n show ?thesis by simp
qed

text \<open>
  Claim C8 as stated fails: when the second call fails with status 500, the last status
  published keeps \<open>totalItems\<close> and the counters, and no continuation is left that could
  publish the all-zero status.
\<close>

theorem halted_drain_keeps_counters_counterexample:
  "map_option published (run second_fails three_queued)
     = Some [\<lparr>isSyncing = True, totalItems = 3, completedItems = 0, failedItems = 0\<rparr>,
             \<lparr>isSyncing = True, totalItems = 3, completedItems = 1, failedItems = 0\<rparr>,
             \<lparr>isSyncing = False, totalItems = 3, completedItems = 1, failedItems = 0\<rparr>]
   \<and> map_option suspended (run second_fails three_queued) = Some []"
  by code_simp

section \<open>Properties of overlapping calls of init\<close>

text \<open>On a new device the steps of one call, taken in turn, are the call as a whole.\<close>

lemma one_init_fresh:
  "init_run (one_init now) (no_database, []) = Some (snd (init now no_database), [])"
  by (simp add: one_init_def init_step_def init_call_def no_database_def openDB_def dbVersion_def
        upgrade_def Let_def count_sessionNotes_def sampleNotes_def add_sessionNote_def init_def
        initializeSampleData_def)


lemma upgrade_keeps:
  assumes "''sessionNotes'' \<notin> set (objectStoreNames s) \<longrightarrow> sessionNotes s = []"
  shows "sessionNotes (upgrade s) = sessionNotes s"
    and "''sessionNotes'' \<in> set (objectStoreNames (upgrade s))"
    and "upgrades (upgrade s) = upgrades s" and "opened (upgrade s) = opened s"
    and "version (upgrade s) = version s" and "db (upgrade s) = db s"
  using assms by (simp_all add: upgrade_def Let_def)

lemma openDB_rejected:
  assumes "openDB s = (Inl e, s1)"
  shows "s1 = s"
  using assms by (simp add: openDB_def Let_def split: if_splits)

lemma openDB_opened:
  assumes o: "openDB s = (Inr h, s1)"
    and wf: "''sessionNotes'' \<notin> set (objectStoreNames s) \<longrightarrow> sessionNotes s = []"
  shows "sessionNotes s1 = sessionNotes s" and "version s1 = dbVersion"
    and "opened s1 = opened s + 1" and "version s \<le> dbVersion"
    and "upgrades s1 = (if version s < dbVersion then upgrades s + 1 else upgrades s)"
    and "''sessionNotes'' \<notin> set (objectStoreNames s1) \<longrightarrow> sessionNotes s1 = []"
proof -
  have le: "version s \<le> dbVersion"
    using o by (simp add: openDB_def split: if_splits)
  show "version s \<le> dbVersion" by (rule le)
  show "sessionNotes s1 = sessionNotes s" "version s1 = dbVersion" "opened s1 = opened s + 1"
    "upgrades s1 = (if version s < dbVersion then upgrades s + 1 else upgrades s)"
    "''sessionNotes'' \<notin> set (objectStoreNames s1) \<longrightarrow> sessionNotes s1 = []"
    using o le wf upgrade_keeps [OF wf]
    by (auto simp: openDB_def Let_def split: if_splits)
qed


lemma sample_ids: "map note_id (sampleNotes now) = [''1'', ''2'']"
  by (simp add: sampleNotes_def)

lemma init_inv_call: "init_inv s0 w \<Longrightarrow> init_inv s0 (init_call w)"
  by (cases w) (auto simp: init_inv_def init_call_def)

lemma init_inv_open:
  assumes I: "init_inv s0 (s, ts)"
  shows "init_inv s0 (init_resume now InitOpen (s, remove1 InitOpen ts))"
proof (cases "openDB s")
  case (Pair r s1)
  have wf: "''sessionNotes'' \<notin> set (objectStoreNames s) \<longrightarrow> sessionNotes s = []"
    using I by (simp add: init_inv_def)
  have rest: "init_inv s0 (s, remove1 InitOpen ts)"
    using I by (auto simp: init_inv_def removals_remove1)
  show ?thesis
  proof (cases r)
    case (Inl e)
    with Pair openDB_rejected [of s e s1] rest show ?thesis by simp
  next
    case (Inr h)
    note o = openDB_opened [OF Pair [unfolded Inr] wf]
    have "init_inv s0 (s1\<lparr>db := Some h\<rparr>, remove1 InitOpen ts)"
      using rest o by (auto simp: init_inv_def)
    moreover have "init_inv s0 (s1\<lparr>db := Some h\<rparr>, remove1 InitOpen ts @ [InitCount])"
      using rest o by (auto simp: init_inv_def)
    ultimately show ?thesis
      by (simp add: Pair Inr Let_def)
  qed
qed

lemma init_inv_count:
  assumes I: "init_inv s0 (s, ts)"
  shows "init_inv s0 (init_resume now InitCount (s, remove1 InitCount ts))"
proof -
  have rest: "init_inv s0 (s, remove1 InitCount ts)"
    using I by (auto simp: init_inv_def removals_remove1)
  have "sessionNotes s = [] \<Longrightarrow>
      init_inv s0 (s, remove1 InitCount ts @ [InitAdd (sampleNotes now)])"
    using rest by (auto simp: init_inv_def sample_ids)
  with rest show ?thesis
    by (simp add: count_sessionNotes_def)
qed

lemma init_inv_add:
  assumes I: "init_inv s0 (s, ts)" and t: "InitAdd ns \<in> set ts"
  shows "init_inv s0 (init_resume now (InitAdd ns) (s, remove1 (InitAdd ns) ts))"
proof (cases ns)
  case Nil
  with I show ?thesis by (auto simp: init_inv_def removals_remove1)
next
  case (Cons n ns')
  let ?ts = "remove1 (InitAdd ns) ts"
  have rest: "init_inv s0 (s, ?ts)"
    using I by (auto simp: init_inv_def removals_remove1)
  have empty0: "sessionNotes s0 = []"
    and ids: "map note_id (sessionNotes s) \<in> {[], [''1''], [''1'', ''2'']}"
    and mine: "map note_id ns = [''1'', ''2''] \<or> (map note_id ns = [''2''] \<and> sessionNotes s \<noteq> [])"
    using I t by (auto simp: init_inv_def list_all_iff)
  show ?thesis
  proof (cases "add_sessionNote n s")
    case (Pair r s1)
    show ?thesis
    proof (cases r)
      case (Inl e)
      with Pair have "s1 = s"
        by (simp add: add_sessionNote_def split: if_splits)
      with rest Pair Inl show ?thesis by (simp add: Cons)
    next
      case (Inr k)
      with Pair have ex: "''sessionNotes'' \<in> set (objectStoreNames s)"
        and fresh: "note_id n \<notin> set (map note_id (sessionNotes s))"
        and s1: "s1 = s\<lparr>sessionNotes := sessionNotes s @ [n]\<rparr>"
        by (simp_all add: add_sessionNote_def split: if_splits)
      from mine show ?thesis
      proof
        assume both: "map note_id ns = [''1'', ''2'']"
        then have n: "note_id n = ''1''" and ns': "map note_id ns' = [''2'']"
          by (simp_all add: Cons)
        from fresh n ids have e: "sessionNotes s = []" by auto
        have "init_inv s0 (s1, ?ts @ [InitAdd ns'])"
          using rest e n ns' empty0 ex
          by (auto simp: init_inv_def s1 list_all_iff)
        moreover have "ns' \<noteq> []" using ns' by auto
        ultimately show ?thesis
          by (simp add: Cons Pair Inr)
      next
        assume one: "map note_id ns = [''2''] \<and> sessionNotes s \<noteq> []"
        then have n: "note_id n = ''2''" and ns': "ns' = []"
          by (simp_all add: Cons)
        from fresh n ids one have e: "map note_id (sessionNotes s) = [''1'']" by auto
        have "init_inv s0 (s1, ?ts)"
          using rest e n empty0 ex
          by (auto simp: init_inv_def s1 list_all_iff)
        then show ?thesis
          by (simp add: Cons Pair Inr ns')
      qed
    qed
  qed
qed

lemma init_inv_step:
  assumes I: "init_inv s0 w" and st: "init_step now ev w = Some w'"
  shows "init_inv s0 w'"
proof (cases ev)
  case InitCall
  with st init_inv_call [OF I] show ?thesis
    by (simp add: init_step_def)
next
  case (InitResume t)
  obtain s ts where w: "w = (s, ts)" by (cases w)
  from st have t: "t \<in> set ts" and w': "w' = init_resume now t (s, remove1 t ts)"
    by (simp_all add: init_step_def InitResume w split: if_splits)
  show ?thesis
  proof (cases t)
    case InitOpen
    with init_inv_open [OF I [unfolded w]] w' show ?thesis by simp
  next
    case InitCount
    with init_inv_count [OF I [unfolded w]] w' show ?thesis by simp
  next
    case (InitAdd ns)
    with init_inv_add [OF I [unfolded w]] t w' show ?thesis by simp
  qed
qed

lemma init_inv_run:
  assumes "init_inv s0 w" and "init_run es w = Some w'"
  shows "init_inv s0 w'"
  using assms
proof (induction es arbitrary: w)
  case Nil
  then show ?case by simp
next
  case (Cons tev es)
  obtain now ev where tev: "tev = (now, ev)" by (cases tev)
  from Cons.prems(2) obtain w1 where st: "init_step now ev w = Some w1"
    and rn: "init_run es w1 = Some w'"
    by (auto simp: tev split: option.splits)
  from Cons.IH [OF init_inv_step [OF Cons.prems(1) st] rn] show ?case .
qed

text \<open>
  Whatever the calls of \<open>init\<close> and the order of their steps: the upgrade runs at most
  once, and once when a database of a lower version has been opened; no two notes share
  an identifier; notes are added only to a collection that was empty, and then the
  collection holds the first sample note, or both, or none.
\<close>

lemma overlapping_inits:
  assumes wf: "''sessionNotes'' \<notin> set (objectStoreNames s0) \<longrightarrow> sessionNotes s0 = []"
    and d0: "distinct (map note_id (sessionNotes s0))"
    and rn: "init_run es (s0, []) = Some (s, ts)"
  shows "upgrades s \<le> upgrades s0 + 1"
    and "version s0 < dbVersion \<and> opened s0 < opened s \<longrightarrow> upgrades s = upgrades s0 + 1"
    and "distinct (map note_id (sessionNotes s))"
    and "sessionNotes s0 \<noteq> [] \<longrightarrow> sessionNotes s = sessionNotes s0"
    and "sessionNotes s0 = [] \<longrightarrow> map note_id (sessionNotes s) \<in> {[], [''1''], [''1'', ''2'']}"
proof -
  have "init_inv s0 (s0, [])"
    using wf by (auto simp: init_inv_def)
  from init_inv_run [OF this rn] have I: "init_inv s0 (s, ts)" .
  show "upgrades s \<le> upgrades s0 + 1"
    using I by (auto simp: init_inv_def)
  show "version s0 < dbVersion \<and> opened s0 < opened s \<longrightarrow> upgrades s = upgrades s0 + 1"
    using I by (auto simp: init_inv_def)
  show "sessionNotes s0 \<noteq> [] \<longrightarrow> sessionNotes s = sessionNotes s0"
    using I by (auto simp: init_inv_def)
  show ids: "sessionNotes s0 = [] \<longrightarrow> map note_id (sessionNotes s) \<in> {[], [''1''], [''1'', ''2'']}"
    using I by (auto simp: init_inv_def)
  show "distinct (map note_id (sessionNotes s))"
  proof (cases "sessionNotes s0 = []")
    case True
    with ids have "map note_id (sessionNotes s) \<in> {[], [''1''], [''1'', ''2'']}" by simp
    then show ?thesis by auto
  next
    case False
    with I d0 show ?thesis by (auto simp: init_inv_def)
  qed
qed

text \<open>
  Claim C9 fails on the code. Two calls of \<open>init\<close> on a new device, the second made
  before \<^verbatim>\<open>openDB\<close> has resolved for the first, both pass the guard \<^verbatim>\<open>if (this.db)\<close>:
  two connections are opened, of which the service keeps the second. The upgrade has run
  once and each sample note is there once.
\<close>

theorem two_inits_open_twice:
  "map_option (opened \<circ> fst) (init_run two_inits (no_database, [])) = Some 2
   \<and> map_option (db \<circ> fst) (init_run two_inits (no_database, [])) = Some (Some 2)
   \<and> map_option (upgrades \<circ> fst) (init_run two_inits (no_database, [])) = Some 1
   \<and> map_option (map note_id \<circ> sessionNotes \<circ> fst) (init_run two_inits (no_database, []))
       = Some [''1'', ''2'']"
  by code_simp

end
